theory Spec2Isabelle
  imports Complex_Main "HOL-Library.Sublist" "HOL-Library.Word"
begin

section \<open>Go values\<close>

text \<open>
  The package is Go. A run-time panic (an index out of range) is the value \<open>Inl\<close> of a
  result; a normal return is \<open>Inr\<close>. Go's \<open>int\<close> is the 64-bit two's complement integer
  of the supported platforms: it is modelled by \<open>int\<close>, and \<open>wrap64\<close> is written where the
  source multiplies, adds or subtracts values that the caller controls. A loop counter
  stays below a length or an image dimension and is incremented as it is.
\<close>

datatype error = IndexOutOfRange

definition go_index :: "'a list \<Rightarrow> int \<Rightarrow> error + 'a" where
  "go_index xs i =
     (if 0 \<le> i \<and> i < int (length xs) then Inr (xs ! nat i) else Inl IndexOutOfRange)"

definition wrap64 :: "int \<Rightarrow> int" where
  "wrap64 n = (n + 2 ^ 63) mod 2 ^ 64 - 2 ^ 63"

text \<open>
  A \<open>float32\<close> is a finite real, an infinity or a NaN. The two zeros compare equal and are
  one value here. Comparison is the IEEE 754 one: every comparison with a NaN is false.
\<close>

datatype f32 = Fin real | PInf | NInf | NaN

fun f32_gt :: "f32 \<Rightarrow> f32 \<Rightarrow> bool" where
  "f32_gt NaN b = False"
| "f32_gt a NaN = False"
| "f32_gt (Fin x) (Fin y) = (y < x)"
| "f32_gt (Fin x) PInf = False"
| "f32_gt (Fin x) NInf = True"
| "f32_gt PInf PInf = False"
| "f32_gt PInf b = True"
| "f32_gt NInf b = False"

section \<open>Sequence decoder\<close>

text \<open>
  \<open>decodeOutputFloatFast\<close>, the restricted scan of one timestep:
  \<^verbatim>\<open>for _, c := range allowedIndices { if c >= numClasses { continue }; val := output[offset+c];
  if val > maxVal { maxVal = val; maxIdx = c } }\<close>.
  The state is the pair \<open>(maxIdx, maxVal)\<close>.
\<close>

fun scan_allowed :: "f32 list \<Rightarrow> int \<Rightarrow> int \<Rightarrow> int list \<Rightarrow> int \<times> f32 \<Rightarrow> error + int \<times> f32" where
  "scan_allowed output offset numClasses [] (maxIdx, maxVal) = Inr (maxIdx, maxVal)"
| "scan_allowed output offset numClasses (c # cs) (maxIdx, maxVal) =
     (if numClasses \<le> c then scan_allowed output offset numClasses cs (maxIdx, maxVal)
      else
        (case go_index output (wrap64 (offset + c)) of
           Inl e \<Rightarrow> Inl e
         | Inr val \<Rightarrow>
             if f32_gt val maxVal then scan_allowed output offset numClasses cs (c, val)
             else scan_allowed output offset numClasses cs (maxIdx, maxVal)))"

text \<open>
  The unrestricted scan: \<^verbatim>\<open>for c := 1; c < numClasses; c++ { if output[offset+c] > maxVal
  { maxVal = output[offset+c]; maxIdx = c } }\<close>.
\<close>

function scan_all :: "f32 list \<Rightarrow> int \<Rightarrow> int \<Rightarrow> int \<Rightarrow> int \<times> f32 \<Rightarrow> error + int \<times> f32" where
  "scan_all output offset numClasses c (maxIdx, maxVal) =
     (if c < numClasses then
        (case go_index output (wrap64 (offset + c)) of
           Inl e \<Rightarrow> Inl e
         | Inr val \<Rightarrow>
             if f32_gt val maxVal then scan_all output offset numClasses (c + 1) (c, val)
             else scan_all output offset numClasses (c + 1) (maxIdx, maxVal))
      else Inr (maxIdx, maxVal))"
  by pat_completeness auto
termination
  by (relation "measure (\<lambda>(output, offset, numClasses, c, st). nat (numClasses - c))") auto

text \<open>
  The choice of \<open>maxIdx\<close> at one timestep: \<open>maxIdx := 0\<close>, \<open>maxVal := float32(-1e9)\<close>, then
  one of the two scans; the unrestricted one starts from \<open>maxVal = output[offset]\<close>.
  The constant \<open>-1e9\<close> is a \<open>float32\<close> value exactly.
\<close>

definition select_index :: "f32 list \<Rightarrow> int \<Rightarrow> int \<Rightarrow> int list \<Rightarrow> error + int" where
  "select_index output offset numClasses allowedIndices =
     (if 0 < length allowedIndices then
        (case scan_allowed output offset numClasses allowedIndices (0, Fin (- 1000000000)) of
           Inl e \<Rightarrow> Inl e
         | Inr (maxIdx, maxVal) \<Rightarrow> Inr maxIdx)
      else
        (case go_index output offset of
           Inl e \<Rightarrow> Inl e
         | Inr v \<Rightarrow>
             (case scan_all output offset numClasses 1 (0, v) of
                Inl e \<Rightarrow> Inl e
              | Inr (maxIdx, maxVal) \<Rightarrow> Inr maxIdx)))"

text \<open>
  The loop over the timesteps, with \<open>lastIdx\<close> and the string builder \<open>sb\<close> as state:
  \<^verbatim>\<open>if maxIdx != lastIdx && maxIdx != 0 && maxIdx < charsetLen { sb.WriteString(charsets[maxIdx]) };
  lastIdx = maxIdx\<close>.
\<close>

function decode_loop ::
  "f32 list \<Rightarrow> int \<Rightarrow> int \<Rightarrow> int \<Rightarrow> string list \<Rightarrow> int \<Rightarrow> int list \<Rightarrow> int \<Rightarrow> int \<Rightarrow> string
     \<Rightarrow> error + string" where
  "decode_loop output timesteps batchSize numClasses charsets charsetLen allowedIndices t lastIdx sb =
     (if t < timesteps then
        (case select_index output (wrap64 (wrap64 (t * batchSize) * numClasses)) numClasses
                allowedIndices of
           Inl e \<Rightarrow> Inl e
         | Inr maxIdx \<Rightarrow>
             if maxIdx \<noteq> lastIdx \<and> maxIdx \<noteq> 0 \<and> maxIdx < charsetLen then
               (case go_index charsets maxIdx of
                  Inl e \<Rightarrow> Inl e
                | Inr s \<Rightarrow>
                    decode_loop output timesteps batchSize numClasses charsets charsetLen
                      allowedIndices (t + 1) maxIdx (sb @ s))
             else
               decode_loop output timesteps batchSize numClasses charsets charsetLen
                 allowedIndices (t + 1) maxIdx sb)
      else Inr sb)"
  by pat_completeness auto
termination
  by (relation "measure (\<lambda>(output, timesteps, batchSize, numClasses, charsets, charsetLen,
        allowedIndices, t, lastIdx, sb). nat (timesteps - t))") auto

definition decodeOutputFloatFast ::
  "f32 list \<Rightarrow> int list \<Rightarrow> string list \<Rightarrow> int \<Rightarrow> int list \<Rightarrow> error + string" where
  "decodeOutputFloatFast output shape charsets charsetLen allowedIndices =
     (if length shape = 3 then
        decode_loop output (shape ! 0) (shape ! 1) (shape ! 2) charsets charsetLen
          allowedIndices 0 (- 1) []
      else if length shape = 2 then
        decode_loop output (shape ! 0) 1 (shape ! 1) charsets charsetLen allowedIndices 0 (- 1) []
      else Inr [])"

declare scan_all.simps [simp del] decode_loop.simps [simp del]

text \<open>
  The index chosen at timestep \<open>t\<close>, as the loop body computes it
  (\<open>offset := t * batchSize * numClasses\<close>), and the sequence of the chosen indices.
\<close>

definition timestep_index :: "f32 list \<Rightarrow> int \<Rightarrow> int \<Rightarrow> int list \<Rightarrow> int \<Rightarrow> error + int" where
  "timestep_index output batchSize numClasses allowedIndices t =
     select_index output (wrap64 (wrap64 (t * batchSize) * numClasses)) numClasses allowedIndices"

definition index_path :: "f32 list \<Rightarrow> int \<Rightarrow> int \<Rightarrow> int \<Rightarrow> int list \<Rightarrow> int list" where
  "index_path output timesteps batchSize numClasses allowedIndices =
     map (\<lambda>t. projr (timestep_index output batchSize numClasses allowedIndices t))
       [0..timesteps - 1]"

text \<open>The score of class \<open>c\<close> in the row that starts at \<open>offset\<close>.\<close>

definition row_score :: "f32 list \<Rightarrow> int \<Rightarrow> int \<Rightarrow> f32" where
  "row_score output offset c = output ! nat (offset + c)"

subsection \<open>The decoder as the specification words it\<close>

text \<open>
  The collapse rule of the specification, on a sequence of class indices: \<open>lastIndex\<close>
  starts as "none"; an index is emitted iff
  \<open>index \<noteq> lastIndex \<and> index \<noteq> 0 \<and> index < len(charset)\<close>; \<open>lastIndex\<close> becomes the
  index whether or not it was emitted. \<open>ctc_emitted\<close> is the list of the emitted indices
  and \<open>ctc_text\<close> the text they spell.
\<close>

fun ctc_emitted :: "nat \<Rightarrow> int option \<Rightarrow> int list \<Rightarrow> int list" where
  "ctc_emitted n prev [] = []"
| "ctc_emitted n prev (i # is) =
     (if Some i \<noteq> prev \<and> i \<noteq> 0 \<and> i < int n then [i] else []) @ ctc_emitted n (Some i) is"

definition ctc_text :: "string list \<Rightarrow> int list \<Rightarrow> string" where
  "ctc_text charsets idxs =
     concat (map (\<lambda>i. charsets ! nat i) (ctc_emitted (length charsets) None idxs))"

text \<open>
  The eligible class indices of a timestep in scan order: every class when no restriction
  is set, the entries of the allowed list that are below the class count otherwise.
\<close>

definition eligible :: "int \<Rightarrow> int list \<Rightarrow> int list" where
  "eligible numClasses allowedIndices =
     (if allowedIndices = [] then [0..numClasses - 1]
      else filter (\<lambda>c. c < numClasses) allowedIndices)"

section \<open>Character ranges\<close>

text \<open>
  A Go string is the list of its characters: a \<open>char\<close> stands for one UTF-8 encoded
  character, so that \<^verbatim>\<open>strings.Split(chars, "")\<close> is the list of the one-character
  strings and \<^verbatim>\<open>strings.Contains(s, c)\<close> is \<open>sublist c s\<close>. The presets are ASCII. A
  slice that may be \<open>nil\<close> is an option; \<open>go_slice\<close> gives its elements.
\<close>

definition go_slice :: "'a list option \<Rightarrow> 'a list" where
  "go_slice s = (case s of None \<Rightarrow> [] | Some xs \<Rightarrow> xs)"

text \<open>The fields of \<open>DdddOcr\<close> that range selection and decoding use.\<close>

record DdddOcr =
  charsets :: "string list"
  charsetLen :: int
  charIndexMap :: "string \<rightharpoonup> int"
  allowedIndices :: "int list option"

text \<open>
  The argument of \<open>SetRanges\<close> is an \<^verbatim>\<open>interface{}\<close>: a string, an int, or a value of
  another type.
\<close>

datatype go_value = StringVal string | IntVal int | OtherVal

definition RangeDigit :: int where "RangeDigit = 0"
definition RangeLowercase :: int where "RangeLowercase = 1"
definition RangeUppercase :: int where "RangeUppercase = 2"
definition RangeLowerUpper :: int where "RangeLowerUpper = 3"
definition RangeLowerDigit :: int where "RangeLowerDigit = 4"
definition RangeUpperDigit :: int where "RangeUpperDigit = 5"
definition RangeLowerUpperDigit :: int where "RangeLowerUpperDigit = 6"
definition RangeNonAlphaNum :: int where "RangeNonAlphaNum = 7"

text \<open>
  The end of \<open>SetRanges\<close>: \<^verbatim>\<open>indices = append(indices, 0)\<close>, then the index of every
  character of \<open>chars\<close> that \<open>charIndexMap\<close> knows, in order.
\<close>

definition build_indices :: "DdddOcr \<Rightarrow> string \<Rightarrow> DdddOcr" where
  "build_indices d chars =
     d\<lparr>allowedIndices :=
         Some (0 # List.map_filter (\<lambda>char. charIndexMap d char) (map (\<lambda>c. [c]) chars))\<rparr>"

definition alphaNum :: string where
  "alphaNum = ''abcdefghijklmnopqrstuvwxyzABCDEFGHIJKLMNOPQRSTUVWXYZ0123456789''"

fun SetRanges :: "DdddOcr \<Rightarrow> go_value \<Rightarrow> DdddOcr" where
  "SetRanges d (StringVal v) = build_indices d v"
| "SetRanges d (IntVal v) =
     (if v = RangeDigit then build_indices d ''0123456789''
      else if v = RangeLowercase then build_indices d ''abcdefghijklmnopqrstuvwxyz''
      else if v = RangeUppercase then build_indices d ''ABCDEFGHIJKLMNOPQRSTUVWXYZ''
      else if v = RangeLowerUpper then
        build_indices d ''abcdefghijklmnopqrstuvwxyzABCDEFGHIJKLMNOPQRSTUVWXYZ''
      else if v = RangeLowerDigit then build_indices d ''abcdefghijklmnopqrstuvwxyz0123456789''
      else if v = RangeUpperDigit then build_indices d ''ABCDEFGHIJKLMNOPQRSTUVWXYZ0123456789''
      else if v = RangeLowerUpperDigit then
        build_indices d ''abcdefghijklmnopqrstuvwxyzABCDEFGHIJKLMNOPQRSTUVWXYZ0123456789''
      else if v = RangeNonAlphaNum then
        build_indices d (concat (filter (\<lambda>c. \<not> sublist c alphaNum \<and> c \<noteq> []) (charsets d)))
      else d\<lparr>allowedIndices := None\<rparr>)"
| "SetRanges d OtherVal = d\<lparr>allowedIndices := None\<rparr>"

text \<open>
  The decoding call of \<open>ClassificationWithOptions\<close> and \<open>ClassificationProbability\<close>:
  \<^verbatim>\<open>decodeOutputFloatFast(data, shape, d.charsets, d.charsetLen, d.allowedIndices)\<close>.
\<close>

definition classification_decode :: "DdddOcr \<Rightarrow> f32 list \<Rightarrow> int list \<Rightarrow> error + string" where
  "classification_decode d output shape =
     decodeOutputFloatFast output shape (charsets d) (charsetLen d) (go_slice (allowedIndices d))"

section \<open>Differential slide matcher: the column scan\<close>

text \<open>
  \<open>findGapPython\<close> reads its image through \<^verbatim>\<open>img.At(x+bounds.Min.X, y+bounds.Min.Y).RGBA()\<close>
  and keeps \<^verbatim>\<open>uint8(r>>8), uint8(g>>8), uint8(b>>8)\<close>. An image is its width
  \<^verbatim>\<open>bounds.Dx()\<close>, its height \<^verbatim>\<open>bounds.Dy()\<close> and these three bytes at every position
  relative to the bounds.
\<close>

type_synonym uint8 = "8 word"

record gap_image =
  Dx :: int
  Dy :: int
  rgb8 :: "int \<Rightarrow> int \<Rightarrow> uint8 \<times> uint8 \<times> uint8"

text \<open>The test \<^verbatim>\<open>r8 != 0 || g8 != 0 || b8 != 0\<close> of the pixel at \<open>(x, y)\<close>.\<close>

definition non_black :: "gap_image \<Rightarrow> int \<Rightarrow> int \<Rightarrow> bool" where
  "non_black img x y = (case rgb8 img x y of (r8, g8, b8) \<Rightarrow> r8 \<noteq> 0 \<or> g8 \<noteq> 0 \<or> b8 \<noteq> 0)"

text \<open>
  The inner loop over the rows of column \<open>x\<close>, with \<open>count\<close> and \<open>startY\<close> as state:
  \<^verbatim>\<open>count++; if count == 1 && startY == 0 { startY = y }\<close> at a pixel that is not black.
\<close>

function column_loop :: "gap_image \<Rightarrow> int \<Rightarrow> int \<Rightarrow> int \<Rightarrow> int \<Rightarrow> int \<times> int" where
  "column_loop img x y count startY =
     (if y < Dy img then
        (if non_black img x y then
           column_loop img x (y + 1) (count + 1)
             (if count + 1 = 1 \<and> startY = 0 then y else startY)
         else column_loop img x (y + 1) count startY)
      else (count, startY))"
  by pat_completeness auto
termination
  by (relation "measure (\<lambda>(img, x, y, count, startY). nat (Dy img - y))") auto

text \<open>
  The outer loop over the columns: \<^verbatim>\<open>if count >= minCount { startX = x + 2; break }\<close>;
  \<open>startX\<close> is still 0 when the loop runs out of columns.
\<close>

function scan_loop :: "gap_image \<Rightarrow> int \<Rightarrow> int \<Rightarrow> int \<Rightarrow> int \<times> int" where
  "scan_loop img minCount x startY =
     (if x < Dx img then
        (case column_loop img x 0 0 startY of
           (count, startY') \<Rightarrow>
             if minCount \<le> count then (x + 2, startY')
             else scan_loop img minCount (x + 1) startY')
      else (0, startY))"
  by pat_completeness auto
termination
  by (relation "measure (\<lambda>(img, minCount, x, startY). nat (Dx img - x))") auto

definition findGapPython :: "gap_image \<Rightarrow> int \<Rightarrow> int \<times> int" where
  "findGapPython img minCount = scan_loop img minCount 0 0"

declare column_loop.simps [simp del] scan_loop.simps [simp del]

subsection \<open>The scan as the specification words it\<close>

text \<open>
  The number of pixels of column \<open>x\<close> that are not black, the row of the first of them,
  the gap column (the first column whose count reaches the threshold) and the columns
  that the scan visits: those up to the gap column, or all of them when there is none.
\<close>

definition column_count :: "gap_image \<Rightarrow> int \<Rightarrow> int" where
  "column_count img x = int (length (filter (non_black img x) [0..Dy img - 1]))"

definition first_row :: "gap_image \<Rightarrow> int \<Rightarrow> int option" where
  "first_row img x = find (non_black img x) [0..Dy img - 1]"

definition gap_column :: "gap_image \<Rightarrow> int \<Rightarrow> int option" where
  "gap_column img minCount = find (\<lambda>x. minCount \<le> column_count img x) [0..Dx img - 1]"

definition scanned_columns :: "gap_image \<Rightarrow> int \<Rightarrow> int list" where
  "scanned_columns img minCount =
     (case gap_column img minCount of None \<Rightarrow> [0..Dx img - 1] | Some x0 \<Rightarrow> [0..x0])"

text \<open>
  The rows of the first non-black pixels of the visited columns, in the order in which
  the scan meets them; the head of this list is the row of the first non-black pixel
  met in the whole scan.
\<close>

definition met_rows :: "gap_image \<Rightarrow> int \<Rightarrow> int list" where
  "met_rows img minCount = List.map_filter (first_row img) (scanned_columns img minCount)"

text \<open>The first entry of a list of rows that is not 0, and 0 when there is none.\<close>

definition first_nonzero :: "int list \<Rightarrow> int" where
  "first_nonzero ys = (case find (\<lambda>y. y \<noteq> 0) ys of None \<Rightarrow> 0 | Some y \<Rightarrow> y)"

section \<open>Arithmetic of \<open>float32\<close>\<close>

subsection \<open>Rounding\<close>

text \<open>
  \<open>round32\<close> is round to nearest, ties to even, onto the binary32 format: 24 significant
  bits, least exponent \<open>-126\<close> (below it the spacing of the subnormal numbers, \<open>2^-149\<close>),
  overflow to an infinity from \<open>2^128\<close> on. \<open>pow2 k\<close> is \<open>2^k\<close> for an integer \<open>k\<close>, \<open>expo x\<close>
  the exponent of \<open>x\<close>, \<open>ulp32 x\<close> the spacing of the format at \<open>x\<close>, and \<open>rne\<close> rounds a real
  to the nearest integer, ties to even.
\<close>

definition pow2 :: "int \<Rightarrow> real" where
  "pow2 k = 2 powr of_int k"

definition rne :: "real \<Rightarrow> int" where
  "rne x =
     (let f = \<lfloor>x\<rfloor>; d = x - of_int f
      in if d < 1 / 2 then f else if 1 / 2 < d then f + 1 else if even f then f else f + 1)"

definition expo :: "real \<Rightarrow> int" where
  "expo x = \<lfloor>log 2 \<bar>x\<bar>\<rfloor>"

definition ulp32 :: "real \<Rightarrow> real" where
  "ulp32 x = pow2 (max (expo x) (- 126) - 23)"

definition round32 :: "real \<Rightarrow> f32" where
  "round32 x =
     (if x = 0 then Fin 0
      else
        let r = of_int (rne (x / ulp32 x)) * ulp32 x
        in if pow2 128 \<le> \<bar>r\<bar> then (if 0 < x then PInf else NInf) else Fin r)"

subsection \<open>Operations\<close>

text \<open>
  An operation on finite values is the exact result rounded by \<open>round32\<close>; the cases with
  an infinity or a NaN are those of IEEE 754. With one zero, a division of a non-zero
  value by zero takes the sign of the dividend. In this program the divisor of
  \<open>computeIoU\<close> is never a negative zero, and the quotients by \<open>float32(ratio)\<close> are
  converted to an int, which is the same for either infinity.
\<close>

definition f32_lt :: "f32 \<Rightarrow> f32 \<Rightarrow> bool" where
  "f32_lt a b = f32_gt b a"

fun f32_neg :: "f32 \<Rightarrow> f32" where
  "f32_neg (Fin x) = Fin (- x)"
| "f32_neg PInf = NInf"
| "f32_neg NInf = PInf"
| "f32_neg NaN = NaN"

fun f32_add :: "f32 \<Rightarrow> f32 \<Rightarrow> f32" where
  "f32_add NaN b = NaN"
| "f32_add a NaN = NaN"
| "f32_add (Fin x) (Fin y) = round32 (x + y)"
| "f32_add (Fin x) b = b"
| "f32_add PInf NInf = NaN"
| "f32_add NInf PInf = NaN"
| "f32_add a b = a"

definition f32_sub :: "f32 \<Rightarrow> f32 \<Rightarrow> f32" where
  "f32_sub a b = f32_add a (f32_neg b)"

fun f32_mul :: "f32 \<Rightarrow> f32 \<Rightarrow> f32" where
  "f32_mul NaN b = NaN"
| "f32_mul a NaN = NaN"
| "f32_mul (Fin x) (Fin y) = round32 (x * y)"
| "f32_mul (Fin x) PInf = (if x = 0 then NaN else if 0 < x then PInf else NInf)"
| "f32_mul (Fin x) NInf = (if x = 0 then NaN else if 0 < x then NInf else PInf)"
| "f32_mul PInf (Fin y) = (if y = 0 then NaN else if 0 < y then PInf else NInf)"
| "f32_mul NInf (Fin y) = (if y = 0 then NaN else if 0 < y then NInf else PInf)"
| "f32_mul PInf PInf = PInf"
| "f32_mul PInf NInf = NInf"
| "f32_mul NInf PInf = NInf"
| "f32_mul NInf NInf = PInf"

fun f32_div :: "f32 \<Rightarrow> f32 \<Rightarrow> f32" where
  "f32_div NaN b = NaN"
| "f32_div a NaN = NaN"
| "f32_div (Fin x) (Fin y) =
     (if y = 0 then (if x = 0 then NaN else if 0 < x then PInf else NInf) else round32 (x / y))"
| "f32_div (Fin x) b = Fin 0"
| "f32_div PInf (Fin y) = (if 0 \<le> y then PInf else NInf)"
| "f32_div NInf (Fin y) = (if 0 \<le> y then NInf else PInf)"
| "f32_div a b = NaN"

text \<open>\<open>float32(n)\<close> of an int, and \<open>float32(x)\<close> of a \<open>float64\<close>, which has the same kinds of
  values.\<close>

definition f32_of_int :: "int \<Rightarrow> f32" where
  "f32_of_int n = round32 (of_int n)"

type_synonym f64 = f32

fun f32_of_f64 :: "f64 \<Rightarrow> f32" where
  "f32_of_f64 (Fin x) = round32 x"
| "f32_of_f64 a = a"

text \<open>
  \<open>int(x)\<close> of a \<open>float32\<close> discards the fraction. Where the value does not fit the int
  (also for an infinity and a NaN) Go leaves the result to the implementation; it is the
  least int here, as on amd64.
\<close>

definition f32_to_int :: "f32 \<Rightarrow> int" where
  "f32_to_int a =
     (case a of
        Fin x \<Rightarrow>
          (let t = (if 0 \<le> x then \<lfloor>x\<rfloor> else \<lceil>x\<rceil>)
           in if - (2 ^ 63) \<le> t \<and> t < 2 ^ 63 then t else - (2 ^ 63))
      | _ \<Rightarrow> - (2 ^ 63))"

section \<open>Go's \<open>sort.Slice\<close>\<close>

text \<open>
  \<open>multiclassNMS\<close> sorts with \<open>sort.Slice\<close> of Go's standard library. The package uses the
  builtin \<open>min\<close> and \<open>max\<close>, so it is built with Go 1.21 or later, where \<open>sort.Slice(x, less)\<close>
  is \<open>pdqsort_func(lessSwap{less, swap}, 0, length, bits.Len(uint(length)))\<close> of
  \<open>sort/zsortfunc.go\<close>, a pattern-defeating quicksort. It is embedded here function by
  function. The slice is a list, \<open>data.Swap(i, j)\<close> is \<open>Swap\<close>, and \<open>data.Less(i, j)\<close> is
  \<open>lt (xs ! i) (xs ! j)\<close> for the comparison \<open>lt\<close> of two elements. The indices are
  natural numbers: they stay between 0 and the length of the slice.
\<close>

definition Swap :: "'a list \<Rightarrow> nat \<Rightarrow> nat \<Rightarrow> 'a list" where
  "Swap xs i j = xs[i := xs ! j, j := xs ! i]"

text \<open>
  \<open>insertionSort_func\<close>: \<^verbatim>\<open>for i := a + 1; i < b; i++ { for j := i; j > a &&
  data.Less(j, j-1); j-- { data.Swap(j, j-1) } }\<close>.
\<close>

function insertion_inner :: "('a \<Rightarrow> 'a \<Rightarrow> bool) \<Rightarrow> 'a list \<Rightarrow> nat \<Rightarrow> nat \<Rightarrow> 'a list" where
  "insertion_inner lt xs a j =
     (if a < j \<and> lt (xs ! j) (xs ! (j - 1))
      then insertion_inner lt (Swap xs j (j - 1)) a (j - 1)
      else xs)"
  by pat_completeness auto
termination
  by (relation "measure (\<lambda>(lt, xs, a, j). j)") auto

declare insertion_inner.simps [simp del]

function insertion_outer ::
  "('a \<Rightarrow> 'a \<Rightarrow> bool) \<Rightarrow> 'a list \<Rightarrow> nat \<Rightarrow> nat \<Rightarrow> nat \<Rightarrow> 'a list" where
  "insertion_outer lt xs a b i =
     (if i < b then insertion_outer lt (insertion_inner lt xs a i) a b (i + 1) else xs)"
  by pat_completeness auto
termination
  by (relation "measure (\<lambda>(lt, xs, a, b, i). b - i)") auto

declare insertion_outer.simps [simp del]

definition insertionSort_func :: "('a \<Rightarrow> 'a \<Rightarrow> bool) \<Rightarrow> 'a list \<Rightarrow> nat \<Rightarrow> nat \<Rightarrow> 'a list" where
  "insertionSort_func lt xs a b = insertion_outer lt xs a b (a + 1)"

text \<open>
  \<open>siftDown_func\<close> and \<open>heapSort_func\<close>. The two loops of \<open>heapSort_func\<close> count \<open>i\<close> down
  to 0: \<open>heap_build \<dots> i\<close> and \<open>heap_pop \<dots> i\<close> run the body for \<open>i\<close>, \<open>i - 1\<close>, \<dots>, 0.
  On an empty range the first loop runs once for \<open>i = 0\<close> and changes nothing, and the
  second does not run.
\<close>

function siftDown_func ::
  "('a \<Rightarrow> 'a \<Rightarrow> bool) \<Rightarrow> 'a list \<Rightarrow> nat \<Rightarrow> nat \<Rightarrow> nat \<Rightarrow> 'a list" where
  "siftDown_func lt xs root' hi first =
     (let child = 2 * root' + 1
      in if hi \<le> child then xs
         else
           let child = (if child + 1 < hi \<and> lt (xs ! (first + child)) (xs ! (first + child + 1))
                        then child + 1 else child)
           in if \<not> lt (xs ! (first + root')) (xs ! (first + child)) then xs
              else siftDown_func lt (Swap xs (first + root') (first + child)) child hi first)"
  by pat_completeness auto
termination
  by (relation "measure (\<lambda>(lt, xs, root', hi, first). hi - root')") (auto simp: Let_def)

declare siftDown_func.simps [simp del]

fun heap_build :: "('a \<Rightarrow> 'a \<Rightarrow> bool) \<Rightarrow> 'a list \<Rightarrow> nat \<Rightarrow> nat \<Rightarrow> nat \<Rightarrow> 'a list" where
  "heap_build lt xs hi first 0 = siftDown_func lt xs 0 hi first"
| "heap_build lt xs hi first (Suc i) =
     heap_build lt (siftDown_func lt xs (Suc i) hi first) hi first i"

fun heap_pop :: "('a \<Rightarrow> 'a \<Rightarrow> bool) \<Rightarrow> 'a list \<Rightarrow> nat \<Rightarrow> nat \<Rightarrow> 'a list" where
  "heap_pop lt xs first 0 = siftDown_func lt (Swap xs first first) 0 0 first"
| "heap_pop lt xs first (Suc i) =
     heap_pop lt (siftDown_func lt (Swap xs first (first + Suc i)) 0 (Suc i) first) first i"

definition heapSort_func :: "('a \<Rightarrow> 'a \<Rightarrow> bool) \<Rightarrow> 'a list \<Rightarrow> nat \<Rightarrow> nat \<Rightarrow> 'a list" where
  "heapSort_func lt xs a b =
     (let first = a; hi = b - a
      in if hi = 0 then xs
         else heap_pop lt (heap_build lt xs hi first ((hi - 1) div 2)) first (hi - 1))"

text \<open>
  \<open>partition_func\<close>. \<open>scan_up\<close> is \<^verbatim>\<open>for i <= j && data.Less(i, a) { i++ }\<close> and \<open>scan_down\<close>
  is \<^verbatim>\<open>for i <= j && !data.Less(j, a) { j-- }\<close>, by recursion on \<open>j\<close>: the loops run with
  \<open>i > a\<close>, so at \<open>j = 0\<close> the condition \<open>i <= j\<close> is false. \<open>partition_loop\<close> is the unbounded
  \<open>for\<close> loop; it returns the slice with \<open>j\<close>.
\<close>

function scan_up :: "('a \<Rightarrow> 'a \<Rightarrow> bool) \<Rightarrow> 'a list \<Rightarrow> nat \<Rightarrow> nat \<Rightarrow> nat \<Rightarrow> nat" where
  "scan_up lt xs a i j =
     (if i \<le> j \<and> lt (xs ! i) (xs ! a) then scan_up lt xs a (i + 1) j else i)"
  by pat_completeness auto
termination
  by (relation "measure (\<lambda>(lt, xs, a, i, j). j + 1 - i)") auto

declare scan_up.simps [simp del]

fun scan_down :: "('a \<Rightarrow> 'a \<Rightarrow> bool) \<Rightarrow> 'a list \<Rightarrow> nat \<Rightarrow> nat \<Rightarrow> nat \<Rightarrow> nat" where
  "scan_down lt xs a i 0 = 0"
| "scan_down lt xs a i (Suc j) =
     (if i \<le> Suc j \<and> \<not> lt (xs ! Suc j) (xs ! a) then scan_down lt xs a i j else Suc j)"

function partition_loop ::
  "('a \<Rightarrow> 'a \<Rightarrow> bool) \<Rightarrow> 'a list \<Rightarrow> nat \<Rightarrow> nat \<Rightarrow> nat \<Rightarrow> 'a list \<times> nat" where
  "partition_loop lt xs a i j =
     (let i = scan_up lt xs a i j;
          j = scan_down lt xs a i j
      in if j < i then (xs, j)
         else partition_loop lt (Swap xs i j) a (i + 1) (j - 1))"
  by pat_completeness auto

definition partition_func ::
  "('a \<Rightarrow> 'a \<Rightarrow> bool) \<Rightarrow> 'a list \<Rightarrow> nat \<Rightarrow> nat \<Rightarrow> nat \<Rightarrow> 'a list \<times> nat \<times> bool" where
  "partition_func lt xs a b pivot =
     (let xs = Swap xs a pivot;
          i = scan_up lt xs a (a + 1) (b - 1);
          j = scan_down lt xs a i (b - 1)
      in if j < i then (Swap xs j a, j, True)
         else
           let (xs, j) = partition_loop lt (Swap xs i j) a (i + 1) (j - 1)
           in (Swap xs j a, j, False))"

text \<open>
  \<open>partitionEqual_func\<close>, with its loops \<^verbatim>\<open>for i <= j && !data.Less(a, i) { i++ }\<close> and
  \<^verbatim>\<open>for i <= j && data.Less(a, j) { j-- }\<close>. It returns the slice with \<open>i\<close>.
\<close>

function scan_up_eq :: "('a \<Rightarrow> 'a \<Rightarrow> bool) \<Rightarrow> 'a list \<Rightarrow> nat \<Rightarrow> nat \<Rightarrow> nat \<Rightarrow> nat" where
  "scan_up_eq lt xs a i j =
     (if i \<le> j \<and> \<not> lt (xs ! a) (xs ! i) then scan_up_eq lt xs a (i + 1) j else i)"
  by pat_completeness auto
termination
  by (relation "measure (\<lambda>(lt, xs, a, i, j). j + 1 - i)") auto

declare scan_up_eq.simps [simp del]

fun scan_down_eq :: "('a \<Rightarrow> 'a \<Rightarrow> bool) \<Rightarrow> 'a list \<Rightarrow> nat \<Rightarrow> nat \<Rightarrow> nat \<Rightarrow> nat" where
  "scan_down_eq lt xs a i 0 = 0"
| "scan_down_eq lt xs a i (Suc j) =
     (if i \<le> Suc j \<and> lt (xs ! a) (xs ! Suc j) then scan_down_eq lt xs a i j else Suc j)"

function partitionEqual_loop ::
  "('a \<Rightarrow> 'a \<Rightarrow> bool) \<Rightarrow> 'a list \<Rightarrow> nat \<Rightarrow> nat \<Rightarrow> nat \<Rightarrow> 'a list \<times> nat" where
  "partitionEqual_loop lt xs a i j =
     (let i = scan_up_eq lt xs a i j;
          j = scan_down_eq lt xs a i j
      in if j < i then (xs, i)
         else partitionEqual_loop lt (Swap xs i j) a (i + 1) (j - 1))"
  by pat_completeness auto

definition partitionEqual_func ::
  "('a \<Rightarrow> 'a \<Rightarrow> bool) \<Rightarrow> 'a list \<Rightarrow> nat \<Rightarrow> nat \<Rightarrow> nat \<Rightarrow> 'a list \<times> nat" where
  "partitionEqual_func lt xs a b pivot = partitionEqual_loop lt (Swap xs a pivot) a (a + 1) (b - 1)"

text \<open>
  \<open>partialInsertionSort_func\<close>. \<open>scan_sorted\<close> is \<^verbatim>\<open>for i < b && !data.Less(i, i-1) { i++ }\<close>,
  \<open>shift_left\<close> is \<^verbatim>\<open>for j := i - 1; j >= 1; j-- { if !data.Less(j, j-1) { break };
  data.Swap(j, j-1) }\<close> and \<open>shift_right\<close> is \<^verbatim>\<open>for j := i + 1; j < b; j++ { if
  !data.Less(j, j-1) { break }; data.Swap(j, j-1) }\<close>. \<open>partial_steps\<close> is the outer loop
  with the number of steps that are left of \<open>maxSteps = 5\<close>; the result is the slice with
  the returned bool. \<open>shortestShifting\<close> is 50.
\<close>

function scan_sorted :: "('a \<Rightarrow> 'a \<Rightarrow> bool) \<Rightarrow> 'a list \<Rightarrow> nat \<Rightarrow> nat \<Rightarrow> nat" where
  "scan_sorted lt xs b i =
     (if i < b \<and> \<not> lt (xs ! i) (xs ! (i - 1)) then scan_sorted lt xs b (i + 1) else i)"
  by pat_completeness auto
termination
  by (relation "measure (\<lambda>(lt, xs, b, i). b - i)") auto

declare scan_sorted.simps [simp del]

function shift_left :: "('a \<Rightarrow> 'a \<Rightarrow> bool) \<Rightarrow> 'a list \<Rightarrow> nat \<Rightarrow> 'a list" where
  "shift_left lt xs j =
     (if 1 \<le> j then
        (if \<not> lt (xs ! j) (xs ! (j - 1)) then xs
         else shift_left lt (Swap xs j (j - 1)) (j - 1))
      else xs)"
  by pat_completeness auto
termination
  by (relation "measure (\<lambda>(lt, xs, j). j)") auto

declare shift_left.simps [simp del]

function shift_right :: "('a \<Rightarrow> 'a \<Rightarrow> bool) \<Rightarrow> 'a list \<Rightarrow> nat \<Rightarrow> nat \<Rightarrow> 'a list" where
  "shift_right lt xs b j =
     (if j < b then
        (if \<not> lt (xs ! j) (xs ! (j - 1)) then xs
         else shift_right lt (Swap xs j (j - 1)) b (j + 1))
      else xs)"
  by pat_completeness auto
termination
  by (relation "measure (\<lambda>(lt, xs, b, j). b - j)") auto

declare shift_right.simps [simp del]

fun partial_steps ::
  "('a \<Rightarrow> 'a \<Rightarrow> bool) \<Rightarrow> 'a list \<Rightarrow> nat \<Rightarrow> nat \<Rightarrow> nat \<Rightarrow> nat \<Rightarrow> 'a list \<times> bool" where
  "partial_steps lt xs a b i 0 = (xs, False)"
| "partial_steps lt xs a b i (Suc steps) =
     (let i = scan_sorted lt xs b i
      in if i = b then (xs, True)
         else if b - a < 50 then (xs, False)
         else
           let xs = Swap xs i (i - 1);
               xs = (if 2 \<le> i - a then shift_left lt xs (i - 1) else xs);
               xs = (if 2 \<le> b - i then shift_right lt xs b (i + 1) else xs)
           in partial_steps lt xs a b i steps)"

definition partialInsertionSort_func ::
  "('a \<Rightarrow> 'a \<Rightarrow> bool) \<Rightarrow> 'a list \<Rightarrow> nat \<Rightarrow> nat \<Rightarrow> 'a list \<times> bool" where
  "partialInsertionSort_func lt xs a b = partial_steps lt xs a b (a + 1) 5"

text \<open>
  \<open>breakPatterns_func\<close>. \<open>xorshift_Next\<close> is \<^verbatim>\<open>*r ^= *r << 13; *r ^= *r >> 7;
  *r ^= *r << 17\<close> on a \<open>uint64\<close>, \<open>bits_Len\<close> is \<open>bits.Len\<close>, the number of bits of a
  number, and \<open>nextPowerOfTwo(length)\<close> is \<open>1 << bits.Len(uint(length))\<close>. \<open>break_swaps\<close> is
  the loop \<^verbatim>\<open>for i := 0; i < 3; i++\<close> with the number of passes that are left.
\<close>

definition xorshift_Next :: "64 word \<Rightarrow> 64 word" where
  "xorshift_Next r =
     (let r = xor r (push_bit 13 r);
          r = xor r (drop_bit 7 r)
      in xor r (push_bit 17 r))"

fun bits_Len :: "nat \<Rightarrow> nat" where
  "bits_Len n = (if n = 0 then 0 else Suc (bits_Len (n div 2)))"

declare bits_Len.simps [simp del]

definition nextPowerOfTwo :: "nat \<Rightarrow> 64 word" where
  "nextPowerOfTwo n = push_bit (bits_Len n) 1"

fun break_swaps :: "'a list \<Rightarrow> nat \<Rightarrow> nat \<Rightarrow> 64 word \<Rightarrow> nat \<Rightarrow> 64 word \<Rightarrow> nat \<Rightarrow> nat \<Rightarrow> 'a list" where
  "break_swaps xs a len modulus idx random i 0 = xs"
| "break_swaps xs a len modulus idx random i (Suc n) =
     (let random = xorshift_Next random;
          other = unat (and random (modulus - 1));
          other = (if len \<le> other then other - len else other)
      in break_swaps (Swap xs (idx - 1 + i) (a + other)) a len modulus idx random (i + 1) n)"

definition breakPatterns_func :: "'a list \<Rightarrow> nat \<Rightarrow> nat \<Rightarrow> 'a list" where
  "breakPatterns_func xs a b =
     (let len = b - a
      in if 8 \<le> len then
           break_swaps xs a len (nextPowerOfTwo len) (a + (len div 4) * 2 - 1) (of_nat len) 0 3
         else xs)"

text \<open>
  \<open>choosePivot_func\<close> with \<open>order2_func\<close>, \<open>median_func\<close> and \<open>medianAdjacent_func\<close>; the
  counter \<open>*swaps\<close> is passed along. \<open>shortestNinther\<close> is 50 and \<open>maxSwaps\<close> is 12.
\<close>

datatype sortedHint = unknownHint | increasingHint | decreasingHint

definition order2_func ::
  "('a \<Rightarrow> 'a \<Rightarrow> bool) \<Rightarrow> 'a list \<Rightarrow> nat \<Rightarrow> nat \<Rightarrow> nat \<Rightarrow> nat \<times> nat \<times> nat" where
  "order2_func lt xs a b swaps =
     (if lt (xs ! b) (xs ! a) then (b, a, swaps + 1) else (a, b, swaps))"

definition median_func ::
  "('a \<Rightarrow> 'a \<Rightarrow> bool) \<Rightarrow> 'a list \<Rightarrow> nat \<Rightarrow> nat \<Rightarrow> nat \<Rightarrow> nat \<Rightarrow> nat \<times> nat" where
  "median_func lt xs a b c swaps =
     (let (a, b, swaps) = order2_func lt xs a b swaps;
          (b, c, swaps) = order2_func lt xs b c swaps;
          (a, b, swaps) = order2_func lt xs a b swaps
      in (b, swaps))"

definition medianAdjacent_func ::
  "('a \<Rightarrow> 'a \<Rightarrow> bool) \<Rightarrow> 'a list \<Rightarrow> nat \<Rightarrow> nat \<Rightarrow> nat \<times> nat" where
  "medianAdjacent_func lt xs a swaps = median_func lt xs (a - 1) a (a + 1) swaps"

definition choosePivot_func ::
  "('a \<Rightarrow> 'a \<Rightarrow> bool) \<Rightarrow> 'a list \<Rightarrow> nat \<Rightarrow> nat \<Rightarrow> nat \<times> sortedHint" where
  "choosePivot_func lt xs a b =
     (let l = b - a;
          i = a + l div 4 * 1;
          j = a + l div 4 * 2;
          k = a + l div 4 * 3;
          (j, swaps) =
            (if 8 \<le> l then
               (let (i, j, k, swaps) =
                  (if 50 \<le> l then
                     (let (i, swaps) = medianAdjacent_func lt xs i 0;
                          (j, swaps) = medianAdjacent_func lt xs j swaps;
                          (k, swaps) = medianAdjacent_func lt xs k swaps
                      in (i, j, k, swaps))
                   else (i, j, k, 0))
                in median_func lt xs i j k swaps)
             else (j, 0))
      in if swaps = 0 then (j, increasingHint)
         else if swaps = 12 then (j, decreasingHint)
         else (j, unknownHint))"

text \<open>\<open>reverseRange_func\<close>: \<^verbatim>\<open>i := a; j := b - 1; for i < j { data.Swap(i, j); i++; j-- }\<close>.\<close>

function reverse_loop :: "'a list \<Rightarrow> nat \<Rightarrow> nat \<Rightarrow> 'a list" where
  "reverse_loop xs i j = (if i < j then reverse_loop (Swap xs i j) (i + 1) (j - 1) else xs)"
  by pat_completeness auto
termination
  by (relation "measure (\<lambda>(xs, i, j). j - i)") auto

declare reverse_loop.simps [simp del]

definition reverseRange_func :: "'a list \<Rightarrow> nat \<Rightarrow> nat \<Rightarrow> 'a list" where
  "reverseRange_func xs a b = reverse_loop xs a (b - 1)"

text \<open>
  \<open>pdqsort_func\<close>. \<open>pdq_loop\<close> is its \<open>for\<close> loop with the variables \<open>a\<close>, \<open>b\<close>, \<open>limit\<close>,
  \<open>wasBalanced\<close> and \<open>wasPartitioned\<close>; \<open>maxInsertion\<close> is 12. A recursive call
  \<open>pdqsort_func(data, a, mid, limit)\<close> starts the loop anew on the slice as it is, and the
  loop goes on with the slice that the call leaves.
\<close>

function pdq_loop ::
  "('a \<Rightarrow> 'a \<Rightarrow> bool) \<Rightarrow> 'a list \<Rightarrow> nat \<Rightarrow> nat \<Rightarrow> nat \<Rightarrow> bool \<Rightarrow> bool \<Rightarrow> 'a list" where
  "pdq_loop lt xs a b limit wasBalanced wasPartitioned =
     (let len = b - a
      in if len \<le> 12 then insertionSort_func lt xs a b
         else if limit = 0 then heapSort_func lt xs a b
         else
           let (xs, limit) =
                 (if \<not> wasBalanced then (breakPatterns_func xs a b, limit - 1) else (xs, limit));
               (pivot, hint) = choosePivot_func lt xs a b;
               (xs, pivot, hint) =
                 (if hint = decreasingHint
                  then (reverseRange_func xs a b, (b - 1) - (pivot - a), increasingHint)
                  else (xs, pivot, hint));
               (xs, finished) =
                 (if wasBalanced \<and> wasPartitioned \<and> hint = increasingHint
                  then partialInsertionSort_func lt xs a b
                  else (xs, False))
           in if finished then xs
              else if 0 < a \<and> \<not> lt (xs ! (a - 1)) (xs ! pivot) then
                (let (xs, mid) = partitionEqual_func lt xs a b pivot
                 in pdq_loop lt xs mid b limit wasBalanced wasPartitioned)
              else
                (let (xs, mid, alreadyPartitioned) = partition_func lt xs a b pivot;
                     leftLen = mid - a;
                     rightLen = b - mid;
                     balanceThreshold = len div 8
                 in if leftLen < rightLen then
                      pdq_loop lt (pdq_loop lt xs a mid limit True True) (mid + 1) b limit
                        (balanceThreshold \<le> leftLen) alreadyPartitioned
                    else
                      pdq_loop lt (pdq_loop lt xs (mid + 1) b limit True True) a mid limit
                        (balanceThreshold \<le> rightLen) alreadyPartitioned))"
  by pat_completeness auto

definition pdqsort_func :: "('a \<Rightarrow> 'a \<Rightarrow> bool) \<Rightarrow> 'a list \<Rightarrow> nat \<Rightarrow> nat \<Rightarrow> nat \<Rightarrow> 'a list" where
  "pdqsort_func lt xs a b limit = pdq_loop lt xs a b limit True True"

definition sort_Slice :: "('a \<Rightarrow> 'a \<Rightarrow> bool) \<Rightarrow> 'a list \<Rightarrow> 'a list" where
  "sort_Slice lt xs = pdqsort_func lt xs 0 (length xs) (bits_Len (length xs))"

section \<open>Detection postprocessor\<close>

record BBox =
  X1 :: int
  Y1 :: int
  X2 :: int
  Y2 :: int

text \<open>
  \<open>computeIoU\<close>. The differences and products of coordinates are Go int operations, so
  they wrap.
\<close>

definition computeIoU :: "BBox \<Rightarrow> BBox \<Rightarrow> f32" where
  "computeIoU a b =
     (let x1 = max (X1 a) (X1 b);
          y1 = max (Y1 a) (Y1 b);
          x2 = min (X2 a) (X2 b);
          y2 = min (Y2 a) (Y2 b)
      in if x2 \<le> x1 \<or> y2 \<le> y1 then Fin 0
         else
           let inter = f32_of_int (wrap64 (wrap64 (x2 - x1) * wrap64 (y2 - y1)));
               areaA = f32_of_int (wrap64 (wrap64 (X2 a - X1 a) * wrap64 (Y2 a - Y1 a)));
               areaB = f32_of_int (wrap64 (wrap64 (X2 b - X1 b) * wrap64 (Y2 b - Y1 b)))
           in f32_div inter (f32_sub (f32_add areaA areaB) inter))"

text \<open>The local type \<open>detection\<close> of \<open>multiclassNMS\<close>.\<close>

record detection =
  box :: BBox
  score :: f32

text \<open>
  The first loop of \<open>multiclassNMS\<close>, one prediction row at a time. The greatest class
  score starts from 0: \<^verbatim>\<open>for j := 5; j < len(pred); j++ { if pred[j] > maxClassScore
  { maxClassScore = pred[j] } }\<close>.
\<close>

definition max_class_score :: "f32 list \<Rightarrow> f32" where
  "max_class_score pred = foldl (\<lambda>m v. if f32_gt v m then v else m) (Fin 0) (drop 5 pred)"

text \<open>
  The corners \<open>x1, y1, x2, y2\<close> of a row before they are clipped,
  \<^verbatim>\<open>int((cx - w/2) / float32(ratio))\<close> and so on. The loop reads \<open>pred[4]\<close> first, so
  the row has the entries 0 to 3 when the corners are computed.
\<close>

definition row_corners :: "f32 list \<Rightarrow> f64 \<Rightarrow> int \<times> int \<times> int \<times> int" where
  "row_corners pred ratio =
     (let cx = pred ! 0; cy = pred ! 1; w = pred ! 2; h = pred ! 3
      in (f32_to_int (f32_div (f32_sub cx (f32_div w (Fin 2))) (f32_of_f64 ratio)),
          f32_to_int (f32_div (f32_sub cy (f32_div h (Fin 2))) (f32_of_f64 ratio)),
          f32_to_int (f32_div (f32_add cx (f32_div w (Fin 2))) (f32_of_f64 ratio)),
          f32_to_int (f32_div (f32_add cy (f32_div h (Fin 2))) (f32_of_f64 ratio))))"

text \<open>
  The clipping: \<^verbatim>\<open>if x1 < 0 { x1 = 0 }; if y1 < 0 { y1 = 0 }; if x2 > origW { x2 = origW };
  if y2 > origH { y2 = origH }\<close>.
\<close>

definition clip_box :: "int \<times> int \<times> int \<times> int \<Rightarrow> int \<Rightarrow> int \<Rightarrow> BBox" where
  "clip_box c origW origH =
     (case c of (x1, y1, x2, y2) \<Rightarrow>
        \<lparr>X1 = (if x1 < 0 then 0 else x1),
         Y1 = (if y1 < 0 then 0 else y1),
         X2 = (if origW < x2 then origW else x2),
         Y2 = (if origH < y2 then origH else y2)\<rparr>)"

text \<open>
  One pass of the loop body: \<open>None\<close> is \<^verbatim>\<open>continue\<close>, and \<open>pred[4]\<close> panics on a row
  with fewer than five entries.
\<close>

definition row_detection ::
  "f32 list \<Rightarrow> f64 \<Rightarrow> int \<Rightarrow> int \<Rightarrow> f32 \<Rightarrow> error + detection option" where
  "row_detection pred ratio origW origH scoreThr =
     (case go_index pred 4 of
        Inl e \<Rightarrow> Inl e
      | Inr objScore \<Rightarrow>
          (let sc = f32_mul objScore (max_class_score pred)
           in if f32_lt sc scoreThr then Inr None
              else Inr (Some \<lparr>box = clip_box (row_corners pred ratio) origW origH, score = sc\<rparr>)))"

fun collect_dets ::
  "f32 list list \<Rightarrow> f64 \<Rightarrow> int \<Rightarrow> int \<Rightarrow> f32 \<Rightarrow> detection list \<Rightarrow> error + detection list" where
  "collect_dets [] ratio origW origH scoreThr dets = Inr dets"
| "collect_dets (pred # preds) ratio origW origH scoreThr dets =
     (case row_detection pred ratio origW origH scoreThr of
        Inl e \<Rightarrow> Inl e
      | Inr None \<Rightarrow> collect_dets preds ratio origW origH scoreThr dets
      | Inr (Some d) \<Rightarrow> collect_dets preds ratio origW origH scoreThr (dets @ [d]))"

text \<open>
  The suppression pass. The inner loop marks in \<open>used\<close> every later detection whose IoU
  with detection \<open>i\<close> exceeds \<open>nmsThr\<close>; the outer loop appends the box of every detection
  that is not marked when its turn comes.
\<close>

function mark_loop :: "detection list \<Rightarrow> f32 \<Rightarrow> nat \<Rightarrow> nat \<Rightarrow> bool list \<Rightarrow> bool list" where
  "mark_loop dets nmsThr i j used =
     (if j < length dets then
        (if used ! j then mark_loop dets nmsThr i (j + 1) used
         else if f32_gt (computeIoU (box (dets ! i)) (box (dets ! j))) nmsThr
           then mark_loop dets nmsThr i (j + 1) (used[j := True])
           else mark_loop dets nmsThr i (j + 1) used)
      else used)"
  by pat_completeness auto
termination
  by (relation "measure (\<lambda>(dets, nmsThr, i, j, used). length dets - j)") auto

function nms_loop :: "detection list \<Rightarrow> f32 \<Rightarrow> nat \<Rightarrow> bool list \<Rightarrow> BBox list \<Rightarrow> BBox list" where
  "nms_loop dets nmsThr i used result =
     (if i < length dets then
        (if used ! i then nms_loop dets nmsThr (i + 1) used result
         else nms_loop dets nmsThr (i + 1) (mark_loop dets nmsThr i (i + 1) used)
                (result @ [box (dets ! i)]))
      else result)"
  by pat_completeness auto
termination
  by (relation "measure (\<lambda>(dets, nmsThr, i, used, result). length dets - i)") auto

definition suppress :: "detection list \<Rightarrow> f32 \<Rightarrow> BBox list" where
  "suppress dets nmsThr = nms_loop dets nmsThr 0 (replicate (length dets) False) []"

declare mark_loop.simps [simp del] nms_loop.simps [simp del]

text \<open>
  \<open>multiclassNMS\<close>: the rows, then \<^verbatim>\<open>sort.Slice(dets, func(i, j int) bool
  { return dets[i].score > dets[j].score })\<close>, then the suppression pass. \<open>by_score\<close> is
  the comparison, under which a greater score sorts first.
\<close>

definition by_score :: "detection \<Rightarrow> detection \<Rightarrow> bool" where
  "by_score a b = f32_gt (score a) (score b)"

definition multiclassNMS ::
  "f32 list list \<Rightarrow> f64 \<Rightarrow> int \<Rightarrow> int \<Rightarrow> f32 \<Rightarrow> f32 \<Rightarrow> error + BBox list" where
  "multiclassNMS predictions ratio origW origH nmsThr scoreThr =
     (case collect_dets predictions ratio origW origH scoreThr [] of
        Inl e \<Rightarrow> Inl e
      | Inr dets \<Rightarrow> Inr (suppress (sort_Slice by_score dets) nmsThr))"

subsection \<open>Boxes as the specification words them\<close>

text \<open>
  The area of a box as the code computes it, \<^verbatim>\<open>(b.X2 - b.X1) * (b.Y2 - b.Y1)\<close> in Go's
  int, its conversion to \<open>float32\<close>, and the intersection of two boxes.
\<close>

definition box_area :: "BBox \<Rightarrow> int" where
  "box_area b = wrap64 (wrap64 (X2 b - X1 b) * wrap64 (Y2 b - Y1 b))"

definition area32 :: "BBox \<Rightarrow> f32" where
  "area32 b = f32_of_int (box_area b)"

definition intersection :: "BBox \<Rightarrow> BBox \<Rightarrow> BBox" where
  "intersection a b =
     \<lparr>X1 = max (X1 a) (X1 b), Y1 = max (Y1 a) (Y1 b),
      X2 = min (X2 a) (X2 b), Y2 = min (Y2 a) (Y2 b)\<rparr>"

subsection \<open>The sorted detections as the specification words them\<close>

text \<open>
  The detections that survive the score threshold, in the order of their rows: the score
  of a row is its objectness \<open>pred[4]\<close> times its greatest class score.
\<close>

definition det_score :: "f32 list \<Rightarrow> f32" where
  "det_score pred = f32_mul (pred ! 4) (max_class_score pred)"

definition survivors :: "f32 list list \<Rightarrow> f64 \<Rightarrow> int \<Rightarrow> int \<Rightarrow> f32 \<Rightarrow> detection list" where
  "survivors predictions ratio origW origH scoreThr =
     map (\<lambda>pred. \<lparr>box = clip_box (row_corners pred ratio) origW origH, score = det_score pred\<rparr>)
       (filter (\<lambda>pred. \<not> f32_lt (det_score pred) scoreThr) predictions)"

text \<open>
  A strict weak ordering, which \<open>sort.Slice\<close> asks of its comparison, and a list in the
  order of a comparison \<open>lt\<close>: no element is \<open>lt\<close> an earlier one.
\<close>

definition strict_weak_order :: "'a set \<Rightarrow> ('a \<Rightarrow> 'a \<Rightarrow> bool) \<Rightarrow> bool" where
  "strict_weak_order A lt \<longleftrightarrow>
     (\<forall>a\<in>A. \<not> lt a a) \<and>
     (\<forall>a\<in>A. \<forall>b\<in>A. \<forall>c\<in>A. lt a b \<and> lt b c \<longrightarrow> lt a c) \<and>
     (\<forall>a\<in>A. \<forall>b\<in>A. \<forall>c\<in>A. \<not> lt a b \<and> \<not> lt b c \<longrightarrow> \<not> lt a c)"

definition in_order :: "('a \<Rightarrow> 'a \<Rightarrow> bool) \<Rightarrow> 'a list \<Rightarrow> bool" where
  "in_order lt xs = sorted_wrt (\<lambda>x y. \<not> lt y x) xs"

text \<open>
  The stable insertion that one pass of \<open>insertionSort_func\<close> performs on the sorted part
  \<open>ys\<close> of the slice: the new element \<open>x\<close> moves left past every element it is \<open>lt\<close>.
\<close>

function insert_left :: "('a \<Rightarrow> 'a \<Rightarrow> bool) \<Rightarrow> 'a \<Rightarrow> 'a list \<Rightarrow> 'a list" where
  "insert_left lt x ys =
     (if ys \<noteq> [] \<and> lt x (last ys) then insert_left lt x (butlast ys) @ [last ys] else ys @ [x])"
  by pat_completeness auto
termination
  by (relation "measure (\<lambda>(lt, x, ys). length ys)") auto

declare insert_left.simps [simp del]

definition stable_sort :: "('a \<Rightarrow> 'a \<Rightarrow> bool) \<Rightarrow> 'a list \<Rightarrow> 'a list" where
  "stable_sort lt xs = foldl (\<lambda>ys x. insert_left lt x ys) [] xs"

subsection \<open>Thirteen rows with tied scores\<close>

text \<open>
  Thirteen prediction rows for an image of 416 by 416 pixels at the ratio 1, and the
  detections they give. The rows 2 and 3 have the score \<open>1/4\<close> and the overlapping boxes
  \<open>(20, 20, 22, 22)\<close> and \<open>(20, 20, 22, 24)\<close>; every other row has the box \<open>(0, 0, 2, 2)\<close>.
\<close>

definition tie_rows :: "f32 list list" where
  "tie_rows =
     [[Fin 1, Fin 1, Fin 2, Fin 2, Fin 1, Fin 1],
      [Fin 1, Fin 1, Fin 2, Fin 2, Fin 1, Fin 1],
      [Fin 21, Fin 21, Fin 2, Fin 2, Fin 1, Fin (1 / 4)],
      [Fin 21, Fin 22, Fin 2, Fin 4, Fin 1, Fin (1 / 4)],
      [Fin 1, Fin 1, Fin 2, Fin 2, Fin 1, Fin (1 / 4)],
      [Fin 1, Fin 1, Fin 2, Fin 2, Fin 1, Fin (1 / 4)],
      [Fin 1, Fin 1, Fin 2, Fin 2, Fin 1, Fin (1 / 2)],
      [Fin 1, Fin 1, Fin 2, Fin 2, Fin 1, Fin (1 / 4)],
      [Fin 1, Fin 1, Fin 2, Fin 2, Fin 1, Fin (1 / 4)],
      [Fin 1, Fin 1, Fin 2, Fin 2, Fin 1, Fin (1 / 4)],
      [Fin 1, Fin 1, Fin 2, Fin 2, Fin 1, Fin (1 / 4)],
      [Fin 1, Fin 1, Fin 2, Fin 2, Fin 1, Fin (1 / 4)],
      [Fin 1, Fin 1, Fin 2, Fin 2, Fin 1, Fin (1 / 4)]]"

definition tie_dets :: "detection list" where
  "tie_dets =
     [\<lparr>box = \<lparr>X1 = 0, Y1 = 0, X2 = 2, Y2 = 2\<rparr>, score = Fin 1\<rparr>,
      \<lparr>box = \<lparr>X1 = 0, Y1 = 0, X2 = 2, Y2 = 2\<rparr>, score = Fin 1\<rparr>,
      \<lparr>box = \<lparr>X1 = 20, Y1 = 20, X2 = 22, Y2 = 22\<rparr>, score = Fin (1 / 4)\<rparr>,
      \<lparr>box = \<lparr>X1 = 20, Y1 = 20, X2 = 22, Y2 = 24\<rparr>, score = Fin (1 / 4)\<rparr>,
      \<lparr>box = \<lparr>X1 = 0, Y1 = 0, X2 = 2, Y2 = 2\<rparr>, score = Fin (1 / 4)\<rparr>,
      \<lparr>box = \<lparr>X1 = 0, Y1 = 0, X2 = 2, Y2 = 2\<rparr>, score = Fin (1 / 4)\<rparr>,
      \<lparr>box = \<lparr>X1 = 0, Y1 = 0, X2 = 2, Y2 = 2\<rparr>, score = Fin (1 / 2)\<rparr>,
      \<lparr>box = \<lparr>X1 = 0, Y1 = 0, X2 = 2, Y2 = 2\<rparr>, score = Fin (1 / 4)\<rparr>,
      \<lparr>box = \<lparr>X1 = 0, Y1 = 0, X2 = 2, Y2 = 2\<rparr>, score = Fin (1 / 4)\<rparr>,
      \<lparr>box = \<lparr>X1 = 0, Y1 = 0, X2 = 2, Y2 = 2\<rparr>, score = Fin (1 / 4)\<rparr>,
      \<lparr>box = \<lparr>X1 = 0, Y1 = 0, X2 = 2, Y2 = 2\<rparr>, score = Fin (1 / 4)\<rparr>,
      \<lparr>box = \<lparr>X1 = 0, Y1 = 0, X2 = 2, Y2 = 2\<rparr>, score = Fin (1 / 4)\<rparr>,
      \<lparr>box = \<lparr>X1 = 0, Y1 = 0, X2 = 2, Y2 = 2\<rparr>, score = Fin (1 / 4)\<rparr>]"

section \<open>Softmax\<close>

text \<open>
  \<open>softmax\<close>. \<open>math.Exp\<close> is a function of Go's library, written in assembly on the
  usual platforms: it is the parameter \<open>math_Exp\<close>, from \<open>float64\<close> to \<open>float64\<close>. The
  conversion \<open>float64(x)\<close> of a \<open>float32\<close> is exact. \<open>max_loop\<close> is the loop over
  \<open>input[1:]\<close> and \<open>exp_loop\<close> the loop that fills \<open>output\<close> and adds up \<open>sum\<close> (\<open>sumv\<close>
  here); \<open>input[0]\<close> panics on an empty slice.
\<close>

definition f64_of_f32 :: "f32 \<Rightarrow> f64" where
  "f64_of_f32 x = x"

fun max_loop :: "f32 list \<Rightarrow> f32 \<Rightarrow> f32" where
  "max_loop [] maxVal = maxVal"
| "max_loop (v # vs) maxVal = max_loop vs (if f32_gt v maxVal then v else maxVal)"

fun exp_loop ::
  "(f64 \<Rightarrow> f64) \<Rightarrow> f32 \<Rightarrow> f32 list \<Rightarrow> f32 list \<Rightarrow> f32 \<Rightarrow> f32 list \<times> f32" where
  "exp_loop math_Exp maxVal [] output sumv = (output, sumv)"
| "exp_loop math_Exp maxVal (v # vs) output sumv =
     (let x = f32_of_f64 (math_Exp (f64_of_f32 (f32_sub v maxVal)))
      in exp_loop math_Exp maxVal vs (output @ [x]) (f32_add sumv x))"

definition softmax :: "(f64 \<Rightarrow> f64) \<Rightarrow> f32 list \<Rightarrow> error + f32 list" where
  "softmax math_Exp input =
     (case go_index input 0 of
        Inl e \<Rightarrow> Inl e
      | Inr first \<Rightarrow>
          (let maxVal = max_loop (drop 1 input) first;
               (output, sumv) = exp_loop math_Exp maxVal input [] (Fin 0)
           in Inr (map (\<lambda>x. f32_div x sumv) output)))"

subsection \<open>The accuracy of \<open>math.Exp\<close>\<close>

text \<open>
  What the proofs below ask of \<open>math.Exp\<close>, on the arguments that \<open>softmax\<close> gives it (a
  difference \<open>v - maxVal\<close> is not positive): the result for minus infinity is 0, and the
  result for a finite \<open>x \<le> 0\<close> is a finite \<open>y \<ge> 0\<close> within one unit in the last place of a
  \<open>float64\<close> of \<open>e^x\<close>, a relative error of \<open>2^-52\<close>, or \<open>2^-1074\<close> where the result
  underflows. \<open>exp_ideal\<close>, the exponential function without an error, is one such
  function.
\<close>

definition exp_accurate :: "(f64 \<Rightarrow> f64) \<Rightarrow> bool" where
  "exp_accurate math_Exp \<longleftrightarrow>
     math_Exp NInf = Fin 0 \<and>
     (\<forall>x\<le>0. \<exists>y. math_Exp (Fin x) = Fin y \<and> 0 \<le> y \<and>
        \<bar>y - exp x\<bar> \<le> exp x * pow2 (- 52) + pow2 (- 1074))"

fun exp_ideal :: "f64 \<Rightarrow> f64" where
  "exp_ideal (Fin x) = Fin (exp x)"
| "exp_ideal PInf = PInf"
| "exp_ideal NInf = Fin 0"
| "exp_ideal NaN = NaN"

subsection \<open>Softmax as the specification words it\<close>

text \<open>
  The arg-max index of a row is the first index whose entry no entry of the row exceeds.
  The sum of a row is the sum of its values as real numbers.
\<close>

definition arg_max_index :: "f32 list \<Rightarrow> nat" where
  "arg_max_index xs =
     (case find (\<lambda>i. list_all (\<lambda>v. \<not> f32_gt v (xs ! i)) xs) [0..<length xs] of
        Some i \<Rightarrow> i
      | None \<Rightarrow> 0)"

fun f32_real :: "f32 \<Rightarrow> real" where
  "f32_real (Fin x) = x"
| "f32_real PInf = 0"
| "f32_real NInf = 0"
| "f32_real NaN = 0"

definition row_sum :: "f32 list \<Rightarrow> real" where
  "row_sum xs = sum_list (map f32_real xs)"

text \<open>
  The two parts of the claim about a row: the output sums to 1 within \<open>1e-5\<close>, and its
  arg-max index is that of the input.
\<close>

definition softmax_sums_to_one :: "(f64 \<Rightarrow> f64) \<Rightarrow> f32 list \<Rightarrow> bool" where
  "softmax_sums_to_one math_Exp input =
     (case softmax math_Exp input of
        Inl e \<Rightarrow> False
      | Inr output \<Rightarrow> \<bar>row_sum output - 1\<bar> \<le> 1 / 100000)"

definition softmax_keeps_arg_max :: "(f64 \<Rightarrow> f64) \<Rightarrow> f32 list \<Rightarrow> bool" where
  "softmax_keeps_arg_max math_Exp input =
     (case softmax math_Exp input of
        Inl e \<Rightarrow> False
      | Inr output \<Rightarrow> arg_max_index output = arg_max_index input)"

section \<open>Properties of the sequence decoder\<close>

lemma wrap64_id: "- (2 ^ 63) \<le> n \<Longrightarrow> n < 2 ^ 63 \<Longrightarrow> wrap64 n = n"
  by (simp add: wrap64_def)

lemma go_index_ok: "0 \<le> i \<Longrightarrow> i < int (length xs) \<Longrightarrow> go_index xs i = Inr (xs ! nat i)"
  by (simp add: go_index_def)

lemma scan_allowed_ok:
  assumes "0 \<le> offset" "offset + numClasses \<le> int (length output)" "int (length output) < 2 ^ 63"
    and "\<forall>c\<in>set cs. 0 \<le> c"
  shows "\<exists>i v. scan_allowed output offset numClasses cs (maxIdx, maxVal) = Inr (i, v) \<and>
           (i = maxIdx \<or> (i \<in> set cs \<and> i < numClasses))"
  using assms(4)
proof (induction cs arbitrary: maxIdx maxVal)
  case Nil
  then show ?case by simp
next
  case (Cons c cs)
  show ?case
  proof (cases "numClasses \<le> c")
    case True
    with Cons show ?thesis by force
  next
    case False
    with Cons.prems assms have r: "0 \<le> offset + c" "offset + c < int (length output)" "offset + c < 2 ^ 63"
      by auto
    then have g: "go_index output (wrap64 (offset + c)) = Inr (output ! nat (offset + c))"
      by (simp add: wrap64_id go_index_ok)
    from Cons.prems have cs: "\<forall>c\<in>set cs. 0 \<le> c" by simp
    show ?thesis
    proof (cases "f32_gt (output ! nat (offset + c)) maxVal")
      case True
      from Cons.IH [OF cs, of c "output ! nat (offset + c)"] False True g show ?thesis
        by auto
    next
      case F2: False
      from Cons.IH [OF cs, of maxIdx maxVal] False F2 g show ?thesis
        by auto
    qed
  qed
qed

lemma scan_all_upto:
  "scan_all output offset numClasses c st = scan_allowed output offset numClasses [c..numClasses - 1] st"
proof (induction "nat (numClasses - c)" arbitrary: c st)
  case 0
  then have "[c..numClasses - 1] = []" by simp
  with 0 show ?case by (cases st) (simp add: scan_all.simps)
next
  case (Suc n)
  then have lt: "c < numClasses" by linarith
  then have u: "[c..numClasses - 1] = c # [c + 1..numClasses - 1]"
    by (simp add: upto_rec1)
  from Suc have n: "n = nat (numClasses - (c + 1))" by linarith
  obtain i v where st: "st = (i, v)" by (cases st)
  from lt have nle: "\<not> numClasses \<le> c" by simp
  show ?case
    unfolding st u
    by (subst scan_all.simps) (simp add: lt nle Suc.hyps(1) [OF n] split: sum.splits)
qed

lemma f32_gt_irrefl: "\<not> f32_gt a a"
  by (cases a) simp_all

lemma f32_gt_asym: "f32_gt a b \<Longrightarrow> \<not> f32_gt b a"
  by (cases a; cases b) simp_all

lemma scan_allowed_read:
  assumes "0 \<le> offset" "offset + numClasses \<le> int (length output)" "int (length output) < 2 ^ 63"
    and "0 \<le> c" "c < numClasses"
  shows "go_index output (wrap64 (offset + c)) = Inr (row_score output offset c)"
proof -
  from assms have "0 \<le> offset + c" "offset + c < int (length output)" "offset + c < 2 ^ 63"
    by auto
  then show ?thesis by (simp add: wrap64_id go_index_ok row_score_def)
qed

lemma scan_allowed_keep:
  assumes "0 \<le> offset" "offset + numClasses \<le> int (length output)" "int (length output) < 2 ^ 63"
    and "\<forall>c\<in>set cs. 0 \<le> c"
    and "\<forall>c\<in>set cs. c < numClasses \<longrightarrow> \<not> f32_gt (row_score output offset c) v"
  shows "scan_allowed output offset numClasses cs (i, v) = Inr (i, v)"
  using assms(4,5)
proof (induction cs)
  case Nil
  then show ?case by simp
next
  case (Cons c cs)
  then show ?case
    using scan_allowed_read [OF assms(1-3), of c] by (cases "numClasses \<le> c") auto
qed

lemma scan_allowed_first_max:
  assumes "0 \<le> offset" "offset + numClasses \<le> int (length output)" "int (length output) < 2 ^ 63"
    and "\<forall>c\<in>set cs. 0 \<le> c"
    and "\<forall>c\<in>set cs. c < numClasses \<longrightarrow>
           row_score output offset c = m \<or> f32_gt m (row_score output offset c)"
    and "find (\<lambda>c. row_score output offset c = m) (filter (\<lambda>c. c < numClasses) cs) = Some k"
    and "f32_gt m v"
  shows "scan_allowed output offset numClasses cs (i, v) = Inr (k, m)"
  using assms(4-7)
proof (induction cs arbitrary: i v)
  case Nil
  then show ?case by simp
next
  case (Cons c cs)
  note rd = scan_allowed_read [OF assms(1-3), of c]
  show ?case
  proof (cases "numClasses \<le> c")
    case True
    with Cons show ?thesis by simp
  next
    case False
    then have lt: "c < numClasses" by simp
    from Cons.prems have c0: "0 \<le> c" and cs0: "\<forall>c\<in>set cs. 0 \<le> c" by simp_all
    from Cons.prems have dom: "\<forall>c\<in>set cs. c < numClasses \<longrightarrow>
           row_score output offset c = m \<or> f32_gt m (row_score output offset c)" by simp
    show ?thesis
    proof (cases "row_score output offset c = m")
      case True
      with Cons.prems lt have k: "k = c" by simp
      have keep: "scan_allowed output offset numClasses cs (c, m) = Inr (c, m)"
        using dom by (intro scan_allowed_keep [OF assms(1-3) cs0]) (auto simp: f32_gt_irrefl dest: f32_gt_asym)
      from True Cons.prems(4) lt rd [OF c0 lt] keep k show ?thesis by simp
    next
      case ne: False
      with Cons.prems lt have gt: "f32_gt m (row_score output offset c)" by auto
      from ne Cons.prems lt have fd: "find (\<lambda>c. row_score output offset c = m) (filter (\<lambda>c. c < numClasses) cs) = Some k"
        by simp
      show ?thesis
        using Cons.IH [OF cs0 dom fd gt] Cons.IH [OF cs0 dom fd Cons.prems(4)] lt rd [OF c0 lt]
        by simp
    qed
  qed
qed

lemma select_index_ok:
  assumes "0 \<le> offset" "offset + numClasses \<le> int (length output)" "int (length output) < 2 ^ 63"
    and "1 \<le> numClasses" and "\<forall>c\<in>set allowed. 0 \<le> c"
  shows "\<exists>i. select_index output offset numClasses allowed = Inr i \<and> 0 \<le> i"
proof (cases "allowed = []")
  case True
  from assms have g: "go_index output offset = Inr (output ! nat offset)"
    by (simp add: go_index_ok)
  have "\<forall>c\<in>set [1..numClasses - 1]. (0::int) \<le> c" by simp
  from scan_allowed_ok [OF assms(1-3) this, of 0 "output ! nat offset"]
  show ?thesis
    by (auto simp: select_index_def True g scan_all_upto)
next
  case False
  from scan_allowed_ok [OF assms(1-3,5), of 0 "Fin (- 1000000000)"] assms(5)
  show ?thesis
    by (auto simp: select_index_def False)
qed

lemma timestep_offset:
  assumes "0 \<le> t" "t < timesteps" "1 \<le> batchSize" "1 \<le> numClasses"
    and "timesteps * batchSize * numClasses < 2 ^ 63"
  shows "wrap64 (wrap64 (t * batchSize) * numClasses) = t * batchSize * numClasses"
    and "0 \<le> t * batchSize * numClasses"
    and "t * batchSize * numClasses + numClasses \<le> timesteps * batchSize * numClasses"
proof -
  have tb0: "0 \<le> t * batchSize" using assms by simp
  then show o0: "0 \<le> t * batchSize * numClasses" using assms by simp
  have "t + 1 \<le> timesteps" using assms by simp
  then have "(t + 1) * batchSize \<le> timesteps * batchSize"
    using assms by (intro mult_right_mono) auto
  then have "(t + 1) * batchSize * numClasses \<le> timesteps * batchSize * numClasses"
    using assms by (intro mult_right_mono) auto
  moreover have "1 * numClasses \<le> batchSize * numClasses"
    using assms by (intro mult_right_mono) auto
  ultimately show le: "t * batchSize * numClasses + numClasses \<le> timesteps * batchSize * numClasses"
    by (simp add: algebra_simps)
  have "t * batchSize * 1 \<le> t * batchSize * numClasses"
    using tb0 assms by (intro mult_left_mono) auto
  with le assms have "t * batchSize < 2 ^ 63" "t * batchSize * numClasses < 2 ^ 63" by linarith+
  with tb0 o0 show "wrap64 (wrap64 (t * batchSize) * numClasses) = t * batchSize * numClasses"
    by (simp add: wrap64_id)
qed

lemma timestep_index_ok:
  assumes "0 \<le> t" "t < timesteps" "1 \<le> batchSize" "1 \<le> numClasses"
    and "int (length output) = timesteps * batchSize * numClasses"
    and "int (length output) < 2 ^ 63"
    and "\<forall>c\<in>set allowed. 0 \<le> c"
  shows "\<exists>i. timestep_index output batchSize numClasses allowed t = Inr i \<and> 0 \<le> i"
proof -
  have lt: "timesteps * batchSize * numClasses < 2 ^ 63" using assms by simp
  note off = timestep_offset [OF assms(1-4) lt]
  from off(3) assms(5)
  have le: "t * batchSize * numClasses + numClasses \<le> int (length output)" by simp
  show ?thesis
    unfolding timestep_index_def off(1)
    by (rule select_index_ok [OF off(2) le assms(6) assms(4) assms(7)])
qed

lemma decode_loop_collapse:
  assumes "\<forall>t'. t \<le> t' \<and> t' < timesteps \<longrightarrow>
             (\<exists>i. timestep_index output batchSize numClasses allowed t' = Inr i \<and> 0 \<le> i)"
    and "- 1 \<le> lastIdx"
  shows "decode_loop output timesteps batchSize numClasses symbols (int (length symbols))
           allowed t lastIdx sb =
         Inr (sb @ concat (map (\<lambda>i. symbols ! nat i)
           (ctc_emitted (length symbols) (if lastIdx = - 1 then None else Some lastIdx)
              (map (\<lambda>t. projr (timestep_index output batchSize numClasses allowed t))
                 [t..timesteps - 1]))))"
  using assms
proof (induction "nat (timesteps - t)" arbitrary: t lastIdx sb)
  case 0
  then have "[t..timesteps - 1] = []" "\<not> t < timesteps" by simp_all
  then show ?case by (subst decode_loop.simps) simp
next
  case (Suc n)
  then have lt: "t < timesteps" by linarith
  then have u: "[t..timesteps - 1] = t # [t + 1..timesteps - 1]"
    by (simp add: upto_rec1)
  from Suc.hyps(2) have n: "n = nat (timesteps - (t + 1))" by linarith
  from Suc.prems(1) lt obtain i where
    i: "timestep_index output batchSize numClasses allowed t = Inr i" "0 \<le> i"
    by auto
  have rest: "\<forall>t'. t + 1 \<le> t' \<and> t' < timesteps \<longrightarrow>
             (\<exists>i. timestep_index output batchSize numClasses allowed t' = Inr i \<and> 0 \<le> i)"
    using Suc.prems(1) by auto
  have i1: "- 1 \<le> i" using i(2) by simp
  note IH = Suc.hyps(1) [OF n rest i1]
  have ne: "i \<noteq> - 1" using i(2) by simp
  have sel: "select_index output (wrap64 (wrap64 (t * batchSize) * numClasses)) numClasses
      allowed = Inr i"
    using i(1) by (simp add: timestep_index_def)
  let ?emit = "i \<noteq> lastIdx \<and> i \<noteq> 0 \<and> i < int (length symbols)"
  let ?rest = "map (\<lambda>t. projr (timestep_index output batchSize numClasses allowed t))
                 [t + 1..timesteps - 1]"
  have step: "decode_loop output timesteps batchSize numClasses symbols (int (length symbols))
           allowed t lastIdx sb =
     (if ?emit then
        (case go_index symbols i of
           Inl e \<Rightarrow> Inl e
         | Inr s \<Rightarrow> decode_loop output timesteps batchSize numClasses symbols
               (int (length symbols)) allowed (t + 1) i (sb @ s))
      else decode_loop output timesteps batchSize numClasses symbols
               (int (length symbols)) allowed (t + 1) i sb)"
    by (subst decode_loop.simps) (simp add: lt sel)
  have em: "(Some i \<noteq> (if lastIdx = - 1 then None else Some lastIdx)) = (i \<noteq> lastIdx)"
    using ne by auto
  have spec: "ctc_emitted (length symbols) (if lastIdx = - 1 then None else Some lastIdx)
       (map (\<lambda>t. projr (timestep_index output batchSize numClasses allowed t))
          [t..timesteps - 1]) =
     (if ?emit then [i] else []) @ ctc_emitted (length symbols) (Some i) ?rest"
    unfolding u by (simp only: list.map ctc_emitted.simps i(1) sum.sel em)
  show ?case
  proof (cases ?emit)
    case True
    then have g: "go_index symbols i = Inr (symbols ! nat i)"
      using i(2) by (simp add: go_index_ok)
    show ?thesis
      unfolding step spec if_P [OF True] by (simp add: g IH ne)
  next
    case False
    show ?thesis
      unfolding step spec if_not_P [OF False] by (simp add: IH ne)
  qed
qed

lemma f32_gt_trans: "f32_gt a b \<Longrightarrow> f32_gt b c \<Longrightarrow> f32_gt a c"
  by (cases a; cases b; cases c) simp_all

lemma ctc_emitted_no_blank: "0 \<notin> set (ctc_emitted n prev idxs)"
  by (induction idxs arbitrary: prev) auto

subsection \<open>The collapse rule\<close>



subsection \<open>Ties between maximal scores\<close>

text \<open>
  Where the scan does choose the first maximum. Let \<open>m\<close> be the maximum score among the
  eligible class indices of a timestep (every eligible score equals \<open>m\<close> or is below it),
  and let \<open>k\<close> be the first eligible index in scan order whose score is \<open>m\<close>: the lowest
  such index when no restriction is set, the first such entry of the allowed list
  otherwise. The unrestricted scan starts from \<open>output[offset]\<close> and always chooses \<open>k\<close>.
  The restricted scan starts from \<open>maxIdx = 0, maxVal = float32(-1e9)\<close>: it chooses \<open>k\<close>
  when \<open>m\<close> exceeds that start value, and is left with index 0 when it does not.
\<close>

lemma select_index_first_max:
  assumes "0 \<le> offset" "offset + numClasses \<le> int (length output)" "int (length output) < 2 ^ 63"
    and "1 \<le> numClasses"
    and "\<forall>c\<in>set allowed. 0 \<le> c"
    and "\<forall>c\<in>set (eligible numClasses allowed).
           row_score output offset c = m \<or> f32_gt m (row_score output offset c)"
    and "find (\<lambda>c. row_score output offset c = m) (eligible numClasses allowed) = Some k"
  shows "(allowed = [] \<or> f32_gt m (Fin (- 1000000000)) \<longrightarrow>
            select_index output offset numClasses allowed = Inr k) \<and>
         (allowed \<noteq> [] \<and> \<not> f32_gt m (Fin (- 1000000000)) \<longrightarrow>
            select_index output offset numClasses allowed = Inr 0)"
proof (cases "allowed = []")
  case True
  from assms have g: "go_index output offset = Inr (row_score output offset 0)"
    by (simp add: go_index_ok row_score_def)
  have u: "[0..numClasses - 1] = 0 # [1..numClasses - 1]"
    using assms(4) by (simp add: upto_rec1)
  have nn: "\<forall>c\<in>set [1..numClasses - 1]. (0::int) \<le> c" by simp
  have f: "filter (\<lambda>c. c < numClasses) [1..numClasses - 1] = [1..numClasses - 1]"
    by (rule filter_True) simp
  have dom: "\<forall>c\<in>set [1..numClasses - 1]. c < numClasses \<longrightarrow>
      row_score output offset c = m \<or> f32_gt m (row_score output offset c)"
    using assms(6) by (simp add: eligible_def True)
  have "scan_allowed output offset numClasses [1..numClasses - 1] (0, row_score output offset 0) =
      Inr (k, m)"
  proof (cases "row_score output offset 0 = m")
    case T0: True
    with assms(7) have k: "k = 0" by (simp add: eligible_def True u)
    have "scan_allowed output offset numClasses [1..numClasses - 1] (0, m) = Inr (0, m)"
      using dom by (intro scan_allowed_keep [OF assms(1-3) nn])
        (auto simp: f32_gt_irrefl dest: f32_gt_asym)
    then show ?thesis by (simp add: T0 k)
  next
    case False
    with assms(6) have gt: "f32_gt m (row_score output offset 0)"
      by (auto simp: eligible_def True u)
    from False assms(7) have fd: "find (\<lambda>c. row_score output offset c = m)
        (filter (\<lambda>c. c < numClasses) [1..numClasses - 1]) = Some k"
      by (simp add: eligible_def True u f)
    show ?thesis
      by (rule scan_allowed_first_max [OF assms(1-3) nn dom fd gt])
  qed
  then show ?thesis
    by (simp add: True select_index_def g scan_all_upto)
next
  case False
  have dom: "\<forall>c\<in>set allowed. c < numClasses \<longrightarrow>
      row_score output offset c = m \<or> f32_gt m (row_score output offset c)"
    using assms(6) by (simp add: eligible_def False)
  have fd: "find (\<lambda>c. row_score output offset c = m)
        (filter (\<lambda>c. c < numClasses) allowed) = Some k"
    using assms(7) by (simp add: eligible_def False)
  show ?thesis
  proof (cases "f32_gt m (Fin (- 1000000000))")
    case True
    from scan_allowed_first_max [OF assms(1-3,5) dom fd True, of 0]
    show ?thesis by (simp add: select_index_def False True)
  next
    case F2: False
    have "\<forall>c\<in>set allowed. c < numClasses \<longrightarrow>
        \<not> f32_gt (row_score output offset c) (Fin (- 1000000000))"
      using dom F2 f32_gt_trans by blast
    from scan_allowed_keep [OF assms(1-3,5) this, of 0]
    show ?thesis by (simp add: select_index_def False F2)
  qed
qed

text \<open>
  At the row \<open>[1, 5, 5]\<close>: with the allowed list \<open>[0, 2, 1]\<close> the tie between
  the classes 1 and 2 goes to 2, the first of them in the list; without a restriction it
  goes to 1, the lowest.
\<close>

lemma select_index_first_max_example:
  "eligible 3 [0, 2, 1] = [0, 2, 1] \<and>
   find (\<lambda>c. row_score [Fin 1, Fin 5, Fin 5] 0 c = Fin 5) (eligible 3 [0, 2, 1]) = Some 2 \<and>
   select_index [Fin 1, Fin 5, Fin 5] 0 3 [0, 2, 1] = Inr 2 \<and>
   find (\<lambda>c. row_score [Fin 1, Fin 5, Fin 5] 0 c = Fin 5) (eligible 3 []) = Some 1 \<and>
   select_index [Fin 1, Fin 5, Fin 5] 0 3 [] = Inr 1"
  using select_index_first_max [of 0 3 "[Fin 1, Fin 5, Fin 5]" "[0, 2, 1]" "Fin 5" 2]
    select_index_first_max [of 0 3 "[Fin 1, Fin 5, Fin 5]" "[]" "Fin 5" 1]
  by (simp add: eligible_def row_score_def upto_rec1)

text \<open>
  C6. The claim is that among eligible class indices sharing the maximum score the first
  in scan order is selected, with and without a restriction. The restricted scan misses
  this where the unrestricted scan of the same function does it: its start value
  \<open>float32(-1e9)\<close> stands for "less than every score", and a score at or below it never
  replaces the start index 0. In the row \<open>[-3e9, -2e9, -2e9]\<close> the classes 1 and 2 share
  the maximum and 1 comes first in either scan order. Without a restriction the decoder
  selects 1 and decodes the symbol of class 1; with the allowed list \<open>[0, 1, 2]\<close>, which
  makes the same indices eligible, it selects 0 and decodes the empty text.
\<close>

theorem select_index_sentinel_row:
  "eligible 3 [0, 1, 2] = eligible 3 [] \<and>
   row_score [Fin (- 3000000000), Fin (- 2000000000), Fin (- 2000000000)] 0 1 = Fin (- 2000000000) \<and>
   row_score [Fin (- 3000000000), Fin (- 2000000000), Fin (- 2000000000)] 0 2 = Fin (- 2000000000) \<and>
   f32_gt (Fin (- 2000000000))
     (row_score [Fin (- 3000000000), Fin (- 2000000000), Fin (- 2000000000)] 0 0) \<and>
   select_index [Fin (- 3000000000), Fin (- 2000000000), Fin (- 2000000000)] 0 3 [] = Inr 1 \<and>
   select_index [Fin (- 3000000000), Fin (- 2000000000), Fin (- 2000000000)] 0 3 [0, 1, 2] = Inr 0 \<and>
   decodeOutputFloatFast [Fin (- 3000000000), Fin (- 2000000000), Fin (- 2000000000)] [1, 3]
     ['''', ''a'', ''b''] 3 [] = Inr ''a'' \<and>
   decodeOutputFloatFast [Fin (- 3000000000), Fin (- 2000000000), Fin (- 2000000000)] [1, 3]
     ['''', ''a'', ''b''] 3 [0, 1, 2] = Inr []"
  by (simp add: eligible_def row_score_def select_index_def go_index_def wrap64_def
      decodeOutputFloatFast_def decode_loop.simps scan_all.simps upto_rec1)

subsection \<open>Shapes that are neither 2-D nor 3-D\<close>

text \<open>
  C8, as the claim states it, fails: for a shape that is neither 2-D nor 3-D the decoder
  returns normally. At the 4-D shape \<open>[1, 1, 1, 2]\<close> its result is the empty string and
  not an error.
\<close>

theorem decode_bad_shape_counterexample:
  "decodeOutputFloatFast [Fin 0, Fin 1] [1, 1, 1, 2] ['''', ''a''] 2 [] = Inr [] \<and>
   \<not> isl (decodeOutputFloatFast [Fin 0, Fin 1] [1, 1, 1, 2] ['''', ''a''] 2 [])"
  by (simp add: decodeOutputFloatFast_def)

text \<open>
  C8, amended: when the shape is neither 2-D nor 3-D the decoder returns the empty string
  as an ordinary result, whatever the scores, the character set and the allowed indices
  are; nothing is decoded and no error reaches the caller.
\<close>

theorem decode_bad_shape_empty:
  "length shape \<noteq> 2 \<Longrightarrow> length shape \<noteq> 3 \<Longrightarrow>
     decodeOutputFloatFast output shape symbols clen allowed = Inr []"
  by (simp add: decodeOutputFloatFast_def)

theorem decode_bad_shape_empty_witness:
  "length [5, 1, 1, 2 :: int] \<noteq> 2 \<and> length [5, 1, 1, 2 :: int] \<noteq> 3 \<and>
   decodeOutputFloatFast [Fin 3, Fin 4] [5, 1, 1, 2] ['''', ''a''] 2 [0, 1] = Inr []"
  using decode_bad_shape_empty [of "[5, 1, 1, 2]" "[Fin 3, Fin 4]" "['''', ''a'']" 2 "[0, 1]"]
  by simp

section \<open>Properties of range selection\<close>

lemma SetRanges_IntVal_unknown:
  assumes "v < 0 \<or> 7 < v"
  shows "SetRanges d (IntVal v) = d\<lparr>allowedIndices := None\<rparr>"
proof -
  from assms have "v \<noteq> 0" "v \<noteq> 1" "v \<noteq> 2" "v \<noteq> 3" "v \<noteq> 4" "v \<noteq> 5" "v \<noteq> 6" "v \<noteq> 7"
    by auto
  then show ?thesis
    by (simp only: SetRanges.simps RangeDigit_def RangeLowercase_def RangeUppercase_def
        RangeLowerUpper_def RangeLowerDigit_def RangeUpperDigit_def RangeLowerUpperDigit_def
        RangeNonAlphaNum_def if_False)
qed

text \<open>
  C10. \<open>SetRanges\<close> called with an int that is none of the eight presets \<open>0, \<dots>, 7\<close>, or with
  a value that is neither a string nor an int, sets \<open>allowedIndices\<close> to \<open>nil\<close> whatever
  restriction was configured before, and leaves the character set alone. Decoding
  afterwards runs without a restriction: every class index is eligible.
\<close>

theorem SetRanges_unknown_clears:
  assumes "val = OtherVal \<or> (\<exists>v. val = IntVal v \<and> (v < 0 \<or> 7 < v))"
  shows "allowedIndices (SetRanges d val) = None \<and>
         charsets (SetRanges d val) = charsets d \<and>
         charsetLen (SetRanges d val) = charsetLen d \<and>
         classification_decode (SetRanges d val) output shape =
           decodeOutputFloatFast output shape (charsets d) (charsetLen d) [] \<and>
         eligible numClasses (go_slice (allowedIndices (SetRanges d val))) = [0..numClasses - 1]"
proof -
  have "SetRanges d val = d\<lparr>allowedIndices := None\<rparr>"
    using assms SetRanges_IntVal_unknown [of _ d] SetRanges.simps(3) [of d] by blast
  then show ?thesis
    by (simp add: classification_decode_def go_slice_def eligible_def)
qed

text \<open>
  The theorem at a recogniser restricted to the digit \<open>1\<close> and given the int 8: the
  restriction is gone, and a tensor whose best class is \<open>a\<close>, which decoded to \<open>1\<close> under
  the restriction, decodes to \<open>a\<close>.
\<close>

theorem SetRanges_unknown_clears_witness:
  "classification_decode \<lparr>charsets = ['''', ''1'', ''a''], charsetLen = 3,
       charIndexMap = [''1'' \<mapsto> 1, ''a'' \<mapsto> 2], allowedIndices = Some [0, 1]\<rparr>
     [Fin 0, Fin 1, Fin 2] [1, 3] = Inr ''1'' \<and>
   allowedIndices (SetRanges \<lparr>charsets = ['''', ''1'', ''a''], charsetLen = 3,
       charIndexMap = [''1'' \<mapsto> 1, ''a'' \<mapsto> 2], allowedIndices = Some [0, 1]\<rparr>
     (IntVal 8)) = None \<and>
   classification_decode (SetRanges \<lparr>charsets = ['''', ''1'', ''a''], charsetLen = 3,
       charIndexMap = [''1'' \<mapsto> 1, ''a'' \<mapsto> 2], allowedIndices = Some [0, 1]\<rparr>
     (IntVal 8)) [Fin 0, Fin 1, Fin 2] [1, 3] = Inr ''a''"
proof -
  let ?d = "\<lparr>charsets = ['''', ''1'', ''a''], charsetLen = 3,
       charIndexMap = [''1'' \<mapsto> 1, ''a'' \<mapsto> 2], allowedIndices = Some [0, 1]\<rparr>"
  have h: "IntVal 8 = OtherVal \<or> (\<exists>v. IntVal 8 = IntVal v \<and> (v < 0 \<or> 7 < v))"
    by simp
  note c = SetRanges_unknown_clears [OF h, of ?d "[Fin 0, Fin 1, Fin 2]" "[1, 3]" 3]
  have before: "classification_decode ?d [Fin 0, Fin 1, Fin 2] [1, 3] = Inr ''1''"
    by (simp add: classification_decode_def go_slice_def decodeOutputFloatFast_def
        decode_loop.simps select_index_def go_index_def wrap64_def)
  have after: "decodeOutputFloatFast [Fin 0, Fin 1, Fin 2] [1, 3] (charsets ?d) (charsetLen ?d) [] =
      Inr ''a''"
    by (simp add: decodeOutputFloatFast_def decode_loop.simps select_index_def scan_all.simps
        go_index_def wrap64_def)
  from c before after show ?thesis by (simp only:)
qed

section \<open>Properties of the column scan\<close>

lemma column_loop_eq:
  assumes "0 \<le> count"
  shows "column_loop img x y count startY =
     (count + int (length (filter (non_black img x) [y..Dy img - 1])),
      if startY = 0 \<and> count = 0
      then (case find (non_black img x) [y..Dy img - 1] of None \<Rightarrow> 0 | Some y' \<Rightarrow> y')
      else startY)"
  using assms
proof (induction "nat (Dy img - y)" arbitrary: y count startY)
  case 0
  then have "[y..Dy img - 1] = []" "\<not> y < Dy img" by simp_all
  then show ?case by (subst column_loop.simps) simp
next
  case (Suc n)
  then have lt: "y < Dy img" by linarith
  then have u: "[y..Dy img - 1] = y # [y + 1..Dy img - 1]"
    by (simp add: upto_rec1)
  from Suc.hyps(2) have n: "n = nat (Dy img - (y + 1))" by linarith
  show ?case
  proof (cases "non_black img x y")
    case True
    have c1: "0 \<le> count + 1" using Suc.prems by simp
    have ne: "count + 1 \<noteq> 0" using Suc.prems by simp
    show ?thesis
      unfolding u
      by (subst column_loop.simps) (simp add: lt True Suc.hyps(1) [OF n c1] ne)
  next
    case False
    show ?thesis
      unfolding u
      by (subst column_loop.simps) (simp add: lt False Suc.hyps(1) [OF n Suc.prems])
  qed
qed

lemma column_loop_start:
  "column_loop img x 0 0 startY =
     (column_count img x,
      if startY = 0 then (case first_row img x of None \<Rightarrow> 0 | Some y \<Rightarrow> y) else startY)"
  by (simp add: column_loop_eq column_count_def first_row_def)

lemma first_nonzero_simps:
  "first_nonzero [] = 0"
  "first_nonzero (y # ys) = (if y \<noteq> 0 then y else first_nonzero ys)"
  by (simp_all add: first_nonzero_def)

lemma scan_loop_eq:
  "scan_loop img minCount x startY =
     (case find (\<lambda>x. minCount \<le> column_count img x) [x..Dx img - 1] of
        None \<Rightarrow> 0 | Some x0 \<Rightarrow> x0 + 2,
      if startY \<noteq> 0 then startY
      else first_nonzero (List.map_filter (first_row img)
             (case find (\<lambda>x. minCount \<le> column_count img x) [x..Dx img - 1] of
                None \<Rightarrow> [x..Dx img - 1] | Some x0 \<Rightarrow> [x..x0])))"
proof (induction "nat (Dx img - x)" arbitrary: x startY)
  case 0
  then have "[x..Dx img - 1] = []" "\<not> x < Dx img" by simp_all
  then show ?case
    by (subst scan_loop.simps) (simp add: map_filter_simps first_nonzero_simps)
next
  case (Suc n)
  then have lt: "x < Dx img" by linarith
  then have u: "[x..Dx img - 1] = x # [x + 1..Dx img - 1]"
    by (simp add: upto_rec1)
  from Suc.hyps(2) have n: "n = nat (Dx img - (x + 1))" by linarith
  note IH = Suc.hyps(1) [OF n]
  show ?case
  proof (cases "minCount \<le> column_count img x")
    case True
    have xx: "[x..x] = [x]" by (simp add: upto_rec1)
    show ?thesis
      unfolding u
      by (subst scan_loop.simps)
        (simp add: lt True column_loop_start xx map_filter_simps first_nonzero_simps
          split: option.splits)
  next
    case False
    have ux: "\<And>x0. find (\<lambda>x. minCount \<le> column_count img x) [x + 1..Dx img - 1] = Some x0 \<Longrightarrow>
        [x..x0] = x # [x + 1..x0]"
    proof -
      fix x0
      assume "find (\<lambda>x. minCount \<le> column_count img x) [x + 1..Dx img - 1] = Some x0"
      then have "x0 \<in> set [x + 1..Dx img - 1]"
        by (auto simp: find_Some_iff in_set_conv_nth)
      then have "x \<le> x0" by simp
      then show "[x..x0] = x # [x + 1..x0]" by (simp add: upto_rec1)
    qed
    show ?thesis
      unfolding u
      by (subst scan_loop.simps)
        (auto simp: lt False column_loop_start IH map_filter_simps first_nonzero_simps ux u
          split: option.splits)
  qed
qed

text \<open>
  C9, amended. The scan visits the columns from left to right and counts the pixels of
  each that are not black. The first column whose count reaches the threshold gives
  \<open>X = column + 2\<close> and ends the scan; when no column reaches it, \<open>X\<close> is 0. The reported
  row is the row of the first non-black pixel met in the scan whenever that row is not 0:
  it is captured once and no later column overwrites it, and it is reported also when no
  column reaches the threshold. When the scan meets no non-black pixel the row is 0.
\<close>

theorem findGapPython_scan:
  "(gap_column img minCount = Some x0 \<longrightarrow> fst (findGapPython img minCount) = x0 + 2) \<and>
   (gap_column img minCount = None \<longrightarrow> fst (findGapPython img minCount) = 0) \<and>
   (met_rows img minCount = [] \<longrightarrow> snd (findGapPython img minCount) = 0) \<and>
   (met_rows img minCount = y1 # rest \<and> y1 \<noteq> 0 \<longrightarrow> snd (findGapPython img minCount) = y1)"
  by (auto simp: findGapPython_def scan_loop_eq gap_column_def met_rows_def scanned_columns_def
      first_nonzero_simps)

text \<open>
  The theorem at a 4 by 8 image, threshold 5: column 1 has one non-black pixel, in row 6,
  and column 2 has five, in the rows 3 to 7. The gap column is 2, so \<open>X = 4\<close>, and the
  row is 6, that of the first non-black pixel met.
\<close>

theorem findGapPython_scan_witness:
  "gap_column \<lparr>Dx = 4, Dy = 8,
      rgb8 = (\<lambda>x y. if x = 1 \<and> y = 6 \<or> x = 2 \<and> 3 \<le> y then (255, 255, 255) else (0, 0, 0))\<rparr> 5
     = Some 2 \<and>
   met_rows \<lparr>Dx = 4, Dy = 8,
      rgb8 = (\<lambda>x y. if x = 1 \<and> y = 6 \<or> x = 2 \<and> 3 \<le> y then (255, 255, 255) else (0, 0, 0))\<rparr> 5
     = [6, 3] \<and>
   findGapPython \<lparr>Dx = 4, Dy = 8,
      rgb8 = (\<lambda>x y. if x = 1 \<and> y = 6 \<or> x = 2 \<and> 3 \<le> y then (255, 255, 255) else (0, 0, 0))\<rparr> 5
     = (4, 6)"
proof -
  let ?img = "\<lparr>Dx = 4, Dy = 8,
      rgb8 = (\<lambda>x y. if x = 1 \<and> y = 6 \<or> x = 2 \<and> 3 \<le> y then (255, 255, 255) else (0, 0, 0))\<rparr>"
  have cc: "column_count ?img 0 = 0" "column_count ?img 1 = 1" "column_count ?img 2 = 5"
    by (simp_all add: column_count_def non_black_def upto_rec1)
  have g: "gap_column ?img 5 = Some 2"
    by (simp add: gap_column_def cc upto_rec1)
  have fr: "first_row ?img 0 = None" "first_row ?img 1 = Some 6" "first_row ?img 2 = Some 3"
    by (simp_all add: first_row_def non_black_def upto_rec1)
  have m: "met_rows ?img 5 = [6, 3]"
    by (simp add: met_rows_def scanned_columns_def g fr upto_rec1 map_filter_simps)
  from findGapPython_scan [of ?img 5 2 6 "[3]"] g m
  have "fst (findGapPython ?img 5) = 4" "snd (findGapPython ?img 5) = 6" by simp_all
  then have "findGapPython ?img 5 = (4, 6)" by (simp add: prod_eq_iff)
  with g m show ?thesis by simp
qed

text \<open>
  C9, as the claim states it, fails twice. In a 1 by 3 image whose only non-black pixel
  is in row 2, no column reaches the threshold 5 and the result is \<open>(0, 2)\<close>, not \<open>(0, 0)\<close>.
  In a 2 by 6 image with a non-black pixel at column 0, row 0, and five in column 1, rows
  1 to 5, the first non-black pixel met is in row 0, and the result is \<open>(3, 1)\<close>: the row
  of column 1 has replaced it.
\<close>

theorem findGapPython_row_counterexample:
  "gap_column \<lparr>Dx = 1, Dy = 3,
      rgb8 = (\<lambda>x y. if y = 2 then (255, 255, 255) else (0, 0, 0))\<rparr> 5 = None \<and>
   findGapPython \<lparr>Dx = 1, Dy = 3,
      rgb8 = (\<lambda>x y. if y = 2 then (255, 255, 255) else (0, 0, 0))\<rparr> 5 = (0, 2) \<and>
   met_rows \<lparr>Dx = 2, Dy = 6,
      rgb8 = (\<lambda>x y. if x = 0 \<and> y = 0 \<or> x = 1 \<and> 1 \<le> y then (255, 255, 255) else (0, 0, 0))\<rparr> 5
     = [0, 1] \<and>
   findGapPython \<lparr>Dx = 2, Dy = 6,
      rgb8 = (\<lambda>x y. if x = 0 \<and> y = 0 \<or> x = 1 \<and> 1 \<le> y then (255, 255, 255) else (0, 0, 0))\<rparr> 5
     = (3, 1)"
proof -
  let ?a = "\<lparr>Dx = 1, Dy = 3,
      rgb8 = (\<lambda>x y. if y = 2 then (255, 255, 255) else (0, 0, 0))\<rparr>"
  let ?b = "\<lparr>Dx = 2, Dy = 6,
      rgb8 = (\<lambda>x y. if x = 0 \<and> y = 0 \<or> x = 1 \<and> 1 \<le> y then (255, 255, 255) else (0, 0, 0))\<rparr>"
  have a1: "gap_column ?a 5 = None"
    by (simp add: gap_column_def column_count_def non_black_def upto_rec1)
  have a2: "findGapPython ?a 5 = (0, 2)"
    by (simp add: findGapPython_def scan_loop.simps column_loop.simps non_black_def)
  have cc: "column_count ?b 0 = 1" "column_count ?b 1 = 5"
    by (simp_all add: column_count_def non_black_def upto_rec1)
  have fr: "first_row ?b 0 = Some 0" "first_row ?b 1 = Some 1"
    by (simp_all add: first_row_def non_black_def upto_rec1)
  have b1: "met_rows ?b 5 = [0, 1]"
    by (simp add: met_rows_def scanned_columns_def gap_column_def cc fr upto_rec1 map_filter_simps)
  have b2: "findGapPython ?b 5 = (3, 1)"
    by (simp add: findGapPython_def scan_loop.simps column_loop.simps non_black_def)
  from a1 a2 b1 b2 show ?thesis by (simp only: simp_thms)
qed

section \<open>Termination of the quicksort\<close>

lemma scan_up_bounds: "i \<le> scan_up lt xs a i j \<and> (i \<le> j + 1 \<longrightarrow> scan_up lt xs a i j \<le> j + 1)"
proof (induction lt xs a i j rule: scan_up.induct)
  case (1 lt xs a i j)
  then show ?case by (subst (1 2) scan_up.simps) auto
qed

lemma scan_down_bounds: "scan_down lt xs a i j \<le> j \<and> (i \<le> j + 1 \<longrightarrow> i \<le> scan_down lt xs a i j + 1)"
  by (induction j) auto

lemma scan_up_eq_bounds:
  "i \<le> scan_up_eq lt xs a i j \<and> (i \<le> j + 1 \<longrightarrow> scan_up_eq lt xs a i j \<le> j + 1)"
proof (induction lt xs a i j rule: scan_up_eq.induct)
  case (1 lt xs a i j)
  then show ?case by (subst (1 2) scan_up_eq.simps) auto
qed

lemma scan_down_eq_bounds:
  "scan_down_eq lt xs a i j \<le> j \<and> (i \<le> j + 1 \<longrightarrow> i \<le> scan_down_eq lt xs a i j + 1)"
  by (induction j) auto

lemma scan_up_stop: "scan_up lt xs a i j \<le> j \<Longrightarrow> \<not> lt (xs ! scan_up lt xs a i j) (xs ! a)"
proof (induction lt xs a i j rule: scan_up.induct)
  case (1 lt xs a i j)
  show ?case
  proof (cases "i \<le> j \<and> lt (xs ! i) (xs ! a)")
    case True
    then have e: "scan_up lt xs a i j = scan_up lt xs a (i + 1) j"
      by (subst scan_up.simps) simp
    from 1(1) [OF True] 1(2) show ?thesis unfolding e by simp
  next
    case False
    then have e: "scan_up lt xs a i j = i"
      by (subst scan_up.simps) auto
    from False 1(2) show ?thesis unfolding e by auto
  qed
qed

lemma scan_down_stop:
  "1 \<le> i \<Longrightarrow> i \<le> scan_down lt xs a i j \<Longrightarrow> lt (xs ! scan_down lt xs a i j) (xs ! a)"
  by (induction j) (auto split: if_splits)

lemma scan_up_eq_stop:
  "scan_up_eq lt xs a i j \<le> j \<Longrightarrow> lt (xs ! a) (xs ! scan_up_eq lt xs a i j)"
proof (induction lt xs a i j rule: scan_up_eq.induct)
  case (1 lt xs a i j)
  show ?case
  proof (cases "i \<le> j \<and> \<not> lt (xs ! a) (xs ! i)")
    case True
    then have e: "scan_up_eq lt xs a i j = scan_up_eq lt xs a (i + 1) j"
      by (subst scan_up_eq.simps) simp
    from 1(1) [OF True] 1(2) show ?thesis unfolding e by simp
  next
    case False
    then have e: "scan_up_eq lt xs a i j = i"
      by (subst scan_up_eq.simps) auto
    from False 1(2) show ?thesis unfolding e by auto
  qed
qed

lemma scan_down_eq_stop:
  "1 \<le> i \<Longrightarrow> i \<le> scan_down_eq lt xs a i j \<Longrightarrow>
   \<not> lt (xs ! a) (xs ! scan_down_eq lt xs a i j)"
  by (induction j) (auto split: if_splits)

termination partition_loop
proof (relation "measure (\<lambda>(lt, xs, a, i, j). j + 1 - i)", goal_cases)
  case 1
  show ?case by simp
next
  case (2 lt xs a i j i' j')
  have "i \<le> i'" using 2(1) scan_up_bounds [of i lt xs a j] by simp
  moreover have "j' \<le> j" using 2(2) scan_down_bounds [of lt xs a i' j] by simp
  ultimately show ?case using 2(3) by auto
qed

declare partition_loop.simps [simp del]

termination partitionEqual_loop
proof (relation "measure (\<lambda>(lt, xs, a, i, j). j + 1 - i)", goal_cases)
  case 1
  show ?case by simp
next
  case (2 lt xs a i j i' j')
  have "i \<le> i'" using 2(1) scan_up_eq_bounds [of i lt xs a j] by simp
  moreover have "j' \<le> j" using 2(2) scan_down_eq_bounds [of lt xs a i' j] by simp
  ultimately show ?case using 2(3) by auto
qed

declare partitionEqual_loop.simps [simp del]

lemma partition_loop_bounds:
  "1 \<le> i \<Longrightarrow> i \<le> j + 1 \<Longrightarrow>
   i \<le> snd (partition_loop lt xs a i j) + 1 \<and> snd (partition_loop lt xs a i j) \<le> j"
proof (induction lt xs a i j rule: partition_loop.induct)
  case (1 lt xs a i j)
  define i' where "i' = scan_up lt xs a i j"
  define j' where "j' = scan_down lt xs a i' j"
  have i': "i \<le> i'" "i' \<le> j + 1"
    using scan_up_bounds [of i lt xs a j] 1(3) by (simp_all add: i'_def)
  have j': "j' \<le> j" "i' \<le> j' + 1"
    using scan_down_bounds [of lt xs a i' j] i' by (simp_all add: j'_def)
  show ?case
  proof (cases "j' < i'")
    case True
    then have "partition_loop lt xs a i j = (xs, j')"
      by (subst partition_loop.simps) (simp add: i'_def j'_def Let_def)
    with i' j' show ?thesis by simp
  next
    case False
    then have e: "partition_loop lt xs a i j = partition_loop lt (Swap xs i' j') a (i' + 1) (j' - 1)"
      by (subst partition_loop.simps) (simp add: i'_def j'_def Let_def)
    have "i' \<le> j" using False j' by simp
    then have up: "\<not> lt (xs ! i') (xs ! a)"
      unfolding i'_def by (rule scan_up_stop)
    have "1 \<le> i'" using 1(2) i' by simp
    moreover have "i' \<le> scan_down lt xs a i' j" using False by (simp add: j'_def)
    ultimately have "lt (xs ! j') (xs ! a)"
      unfolding j'_def by (rule scan_down_stop)
    with up have "i' \<noteq> j'" by auto
    with False have lt: "i' < j'" by simp
    then have "i' + 1 \<le> j' - 1 + 1" by simp
    from 1(1) [OF i'_def j'_def False _ this] i' j' lt show ?thesis
      unfolding e by auto
  qed
qed

lemma partition_func_bounds:
  assumes "a < b"
  shows "a \<le> fst (snd (partition_func lt xs a b pivot)) \<and>
         fst (snd (partition_func lt xs a b pivot)) < b"
proof -
  define ys where "ys = Swap xs a pivot"
  define i where "i = scan_up lt ys a (a + 1) (b - 1)"
  define j where "j = scan_down lt ys a i (b - 1)"
  have i: "a + 1 \<le> i" "i \<le> b"
    using scan_up_bounds [of "a + 1" lt ys a "b - 1"] assms by (simp_all add: i_def)
  have j: "j \<le> b - 1" "i \<le> j + 1"
    using scan_down_bounds [of lt ys a i "b - 1"] i assms by (simp_all add: j_def)
  show ?thesis
  proof (cases "j < i")
    case True
    then have "partition_func lt xs a b pivot = (Swap ys j a, j, True)"
      by (simp add: partition_func_def Let_def ys_def i_def j_def)
    with i j assms show ?thesis by auto
  next
    case False
    then have e: "fst (snd (partition_func lt xs a b pivot)) =
        snd (partition_loop lt (Swap ys i j) a (i + 1) (j - 1))"
      by (simp add: partition_func_def Let_def ys_def i_def j_def split: prod.split)
    have "i \<le> b - 1" using False j by simp
    then have up: "\<not> lt (ys ! i) (ys ! a)"
      unfolding i_def by (rule scan_up_stop)
    have "1 \<le> i" using i by simp
    moreover have "i \<le> scan_down lt ys a i (b - 1)" using False by (simp add: j_def)
    ultimately have "lt (ys ! j) (ys ! a)"
      unfolding j_def by (rule scan_down_stop)
    with up have "i \<noteq> j" by auto
    with False have lt: "i < j" by simp
    then have "i + 1 \<le> j - 1 + 1" by simp
    from partition_loop_bounds [OF _ this, of lt "Swap ys i j" a] i j assms lt show ?thesis
      unfolding e by auto
  qed
qed

lemma partitionEqual_loop_bounds: "i \<le> snd (partitionEqual_loop lt xs a i j)"
proof (induction lt xs a i j rule: partitionEqual_loop.induct)
  case (1 lt xs a i j)
  define i' where "i' = scan_up_eq lt xs a i j"
  define j' where "j' = scan_down_eq lt xs a i' j"
  have i': "i \<le> i'"
    using scan_up_eq_bounds [of i lt xs a j] by (simp add: i'_def)
  show ?case
  proof (cases "j' < i'")
    case True
    then have "partitionEqual_loop lt xs a i j = (xs, i')"
      by (subst partitionEqual_loop.simps) (simp add: i'_def j'_def Let_def)
    with i' show ?thesis by simp
  next
    case False
    then have e: "partitionEqual_loop lt xs a i j =
        partitionEqual_loop lt (Swap xs i' j') a (i' + 1) (j' - 1)"
      by (subst partitionEqual_loop.simps) (simp add: i'_def j'_def Let_def)
    from 1(1) [OF i'_def j'_def False] i' show ?thesis
      unfolding e by auto
  qed
qed

lemma partitionEqual_func_bounds: "a < snd (partitionEqual_func lt xs a b pivot)"
  using partitionEqual_loop_bounds [of "a + 1" lt "Swap xs a pivot" a "b - 1"]
  by (simp add: partitionEqual_func_def)

lemma partitionEqual_func_mid:
  "(ys, mid) = partitionEqual_func lt xs a b pivot \<Longrightarrow> a < mid"
  using partitionEqual_func_bounds [of a lt xs b pivot] by (metis snd_conv)

lemma partition_func_mid:
  "(ys, mid, already) = partition_func lt xs a b pivot \<Longrightarrow> a < b \<Longrightarrow> a \<le> mid \<and> mid < b"
  using partition_func_bounds [of a b lt xs pivot] by (metis fst_conv snd_conv)

termination pdq_loop
proof (relation "measure (\<lambda>(lt, xs, a, b, limit, wasBalanced, wasPartitioned). b - a)", goal_cases)
  case 1
  show ?case by simp
next
  case (2 lt xs a b)
  from partitionEqual_func_mid [OF 2(16) [unfolded 2(15)]] 2(1,2) show ?case by auto
next
  case (3 lt xs a b)
  from 3(1,2) have "a < b" by simp
  from partition_func_mid [OF 3(16) [unfolded 3(15), folded 3(17)] this] 3(1,2) show ?case by auto
next
  case (4 lt xs a b)
  from 4(1,2) have "a < b" by simp
  from partition_func_mid [OF 4(16) [unfolded 4(15), folded 4(17)] this] 4(1,2) show ?case by auto
next
  case (5 lt xs a b)
  from 5(1,2) have "a < b" by simp
  from partition_func_mid [OF 5(16) [unfolded 5(15), folded 5(17)] this] 5(1,2) show ?case by auto
next
  case (6 lt xs a b)
  from 6(1,2) have "a < b" by simp
  from partition_func_mid [OF 6(16) [unfolded 6(15), folded 6(17)] this] 6(1,2) show ?case by auto
qed

declare pdq_loop.simps [simp del]

subsection \<open>The insertion sort\<close>

lemma Swap_adjacent: "Swap (l @ y # x # r) (Suc (length l)) (length l) = l @ x # y # r"
  by (simp add: Swap_def nth_append list_update_append)

lemma insert_left_Nil: "insert_left lt x [] = [x]"
  by (subst insert_left.simps) simp

lemma insert_left_snoc:
  "insert_left lt x (ys @ [y]) = (if lt x y then insert_left lt x ys @ [y] else ys @ [y, x])"
  by (subst insert_left.simps) simp

lemma length_insert_left: "length (insert_left lt x ys) = Suc (length ys)"
  by (induction ys rule: rev_induct) (simp_all add: insert_left_Nil insert_left_snoc)

lemma count_insert_left:
  "count_list (insert_left lt x ys) z = count_list ys z + (if x = z then 1 else 0)"
  by (induction ys rule: rev_induct) (auto simp: insert_left_Nil insert_left_snoc)

lemma set_insert_left: "set (insert_left lt x ys) = insert x (set ys)"
  by (induction ys rule: rev_induct) (auto simp: insert_left_Nil insert_left_snoc)

lemma filter_insert_left:
  assumes "\<forall>y\<in>set ys. P x \<and> P y \<longrightarrow> \<not> lt x y"
  shows "filter P (insert_left lt x ys) = filter P (ys @ [x])"
  using assms by (induction ys rule: rev_induct) (auto simp: insert_left_Nil insert_left_snoc)

lemma strict_weak_order_subset:
  "strict_weak_order A lt \<Longrightarrow> B \<subseteq> A \<Longrightarrow> strict_weak_order B lt"
  unfolding strict_weak_order_def by blast

lemma strict_weak_order_asym:
  "strict_weak_order A lt \<Longrightarrow> a \<in> A \<Longrightarrow> b \<in> A \<Longrightarrow> lt a b \<Longrightarrow> \<not> lt b a"
  unfolding strict_weak_order_def by blast

lemma strict_weak_order_negtrans:
  "strict_weak_order A lt \<Longrightarrow> a \<in> A \<Longrightarrow> b \<in> A \<Longrightarrow> c \<in> A \<Longrightarrow>
   \<not> lt a b \<Longrightarrow> \<not> lt b c \<Longrightarrow> \<not> lt a c"
  unfolding strict_weak_order_def by blast

lemma in_order_insert_left:
  assumes "strict_weak_order (insert x (set ys)) lt" and "in_order lt ys"
  shows "in_order lt (insert_left lt x ys)"
  using assms
proof (induction ys rule: rev_induct)
  case Nil
  then show ?case by (simp add: insert_left_Nil in_order_def)
next
  case (snoc y ys)
  from snoc.prems(1) have swo: "strict_weak_order (insert x (set ys)) lt"
    by (rule strict_weak_order_subset) auto
  from snoc.prems(2) have srt: "in_order lt ys" and before: "\<forall>w\<in>set ys. \<not> lt y w"
    by (simp_all add: in_order_def sorted_wrt_append)
  show ?case
  proof (cases "lt x y")
    case True
    have "\<not> lt y x"
      using strict_weak_order_asym [OF snoc.prems(1), of x y] True by auto
    with True before snoc.IH [OF swo srt] show ?thesis
      by (simp add: insert_left_snoc in_order_def sorted_wrt_append set_insert_left)
  next
    case False
    have "\<forall>w\<in>set ys. \<not> lt x w"
    proof
      fix w assume w: "w \<in> set ys"
      with before have "\<not> lt y w" by simp
      with strict_weak_order_negtrans [OF snoc.prems(1), of x y w] False w show "\<not> lt x w"
        by auto
    qed
    with False snoc.prems(2) show ?thesis
      by (simp add: insert_left_snoc in_order_def sorted_wrt_append)
  qed
qed

lemma stable_sort_fold:
  "length (foldl (\<lambda>ys x. insert_left lt x ys) ys zs) = length ys + length zs \<and>
   (\<forall>z. count_list (foldl (\<lambda>ys x. insert_left lt x ys) ys zs) z = count_list (ys @ zs) z) \<and>
   set (foldl (\<lambda>ys x. insert_left lt x ys) ys zs) = set ys \<union> set zs \<and>
   ((\<forall>x\<in>set (ys @ zs). \<forall>y\<in>set (ys @ zs). P x \<and> P y \<longrightarrow> \<not> lt x y) \<longrightarrow>
      filter P (foldl (\<lambda>ys x. insert_left lt x ys) ys zs) = filter P (ys @ zs)) \<and>
   (strict_weak_order (set (ys @ zs)) lt \<and> in_order lt ys \<longrightarrow>
      in_order lt (foldl (\<lambda>ys x. insert_left lt x ys) ys zs))"
proof (induction zs arbitrary: ys)
  case Nil
  show ?case by simp
next
  case (Cons z zs)
  let ?ys = "insert_left lt z ys"
  have s: "set (?ys @ zs) = set (ys @ z # zs)" by (simp add: set_insert_left)
  have f: "filter P ?ys = filter P (ys @ [z])"
    if "\<forall>x\<in>set (ys @ z # zs). \<forall>y\<in>set (ys @ z # zs). P x \<and> P y \<longrightarrow> \<not> lt x y"
    using that by (intro filter_insert_left) auto
  have o: "in_order lt ?ys" if "strict_weak_order (set (ys @ z # zs)) lt" "in_order lt ys"
  proof -
    from that(1) have "strict_weak_order (insert z (set ys)) lt"
      by (rule strict_weak_order_subset) auto
    then show ?thesis using that(2) by (rule in_order_insert_left)
  qed
  from Cons.IH [of ?ys] show ?case
    unfolding s using f o by (simp add: length_insert_left count_insert_left set_insert_left)
qed

lemma stable_sort_props:
  "length (stable_sort lt xs) = length xs"
  "count_list (stable_sort lt xs) z = count_list xs z"
  "set (stable_sort lt xs) = set xs"
  "(\<forall>x\<in>set xs. \<forall>y\<in>set xs. P x \<and> P y \<longrightarrow> \<not> lt x y) \<Longrightarrow>
     filter P (stable_sort lt xs) = filter P xs"
  "strict_weak_order (set xs) lt \<Longrightarrow> in_order lt (stable_sort lt xs)"
  using stable_sort_fold [of lt "[]" xs P] by (simp_all add: stable_sort_def in_order_def)

lemma insertion_inner_append:
  "insertion_inner lt (l @ ys @ x # r) (length l) (length l + length ys) =
   l @ insert_left lt x ys @ r"
proof (induction ys arbitrary: r rule: rev_induct)
  case Nil
  show ?case by (subst insertion_inner.simps) (simp add: insert_left_Nil)
next
  case (snoc y ys)
  let ?j = "length l + length (ys @ [y])"
  have nj: "(l @ (ys @ [y]) @ x # r) ! ?j = x"
    by (simp add: nth_append)
  have nj1: "(l @ (ys @ [y]) @ x # r) ! (?j - 1) = y"
    by (simp add: nth_append)
  show ?case
  proof (cases "lt x y")
    case True
    have sw: "Swap (l @ (ys @ [y]) @ x # r) ?j (?j - 1) = l @ ys @ x # y # r"
      using Swap_adjacent [of "l @ ys" y x r] by simp
    have "insertion_inner lt (l @ (ys @ [y]) @ x # r) (length l) ?j =
        insertion_inner lt (l @ ys @ x # y # r) (length l) (length l + length ys)"
      by (subst insertion_inner.simps) (simp only: nj nj1 sw True, simp)
    also have "\<dots> = l @ insert_left lt x ys @ y # r" by (rule snoc.IH)
    finally show ?thesis using True by (simp add: insert_left_snoc)
  next
    case False
    have "insertion_inner lt (l @ (ys @ [y]) @ x # r) (length l) ?j = l @ (ys @ [y]) @ x # r"
      by (subst insertion_inner.simps) (simp only: nj nj1 False, simp)
    then show ?thesis using False by (simp add: insert_left_snoc)
  qed
qed

lemma insertion_outer_append:
  "insertion_outer lt (l @ ys @ zs @ r) (length l) (length l + length ys + length zs)
     (length l + length ys) =
   l @ foldl (\<lambda>ys x. insert_left lt x ys) ys zs @ r"
proof (induction zs arbitrary: ys)
  case Nil
  show ?case by (subst insertion_outer.simps) simp
next
  case (Cons z zs)
  have "insertion_outer lt (l @ ys @ (z # zs) @ r) (length l)
      (length l + length ys + length (z # zs)) (length l + length ys) =
    insertion_outer lt (insertion_inner lt (l @ ys @ z # (zs @ r)) (length l) (length l + length ys))
      (length l) (length l + length ys + length (z # zs)) (length l + length ys + 1)"
    by (subst insertion_outer.simps) simp
  also have "\<dots> = insertion_outer lt (l @ insert_left lt z ys @ zs @ r) (length l)
      (length l + length (insert_left lt z ys) + length zs) (length l + length (insert_left lt z ys))"
    by (simp add: insertion_inner_append length_insert_left)
  also have "\<dots> = l @ foldl (\<lambda>ys x. insert_left lt x ys) (insert_left lt z ys) zs @ r"
    by (rule Cons.IH)
  finally show ?case by simp
qed

lemma insertionSort_func_append:
  "insertionSort_func lt (l @ m @ r) (length l) (length l + length m) = l @ stable_sort lt m @ r"
proof (cases m)
  case Nil
  then show ?thesis
    by (simp add: insertionSort_func_def stable_sort_def) (subst insertion_outer.simps, simp)
next
  case (Cons x zs)
  have "insertionSort_func lt (l @ m @ r) (length l) (length l + length m) =
      insertion_outer lt (l @ [x] @ zs @ r) (length l) (length l + length [x] + length zs)
        (length l + length [x])"
    by (simp add: insertionSort_func_def Cons)
  also have "\<dots> = l @ foldl (\<lambda>ys x. insert_left lt x ys) [x] zs @ r"
    by (rule insertion_outer_append)
  finally show ?thesis by (simp add: stable_sort_def Cons insert_left_Nil)
qed

lemma sort_Slice_small:
  assumes "length xs \<le> 12"
  shows "sort_Slice lt xs = stable_sort lt xs"
proof -
  have "pdq_loop lt xs 0 (length xs) (bits_Len (length xs)) True True =
      insertionSort_func lt xs 0 (length xs)"
    by (subst pdq_loop.simps) (simp add: assms)
  with insertionSort_func_append [of lt "[]" xs "[]"] show ?thesis
    by (simp add: sort_Slice_def pdqsort_func_def)
qed

section \<open>Properties of the rounding\<close>

lemma pow2_pos [simp]: "0 < pow2 k"
  by (simp add: pow2_def)

lemma pow2_nonneg [simp]: "0 \<le> pow2 k"
  by (simp add: pow2_def)

lemma pow2_neq0 [simp]: "pow2 k \<noteq> 0"
  by (simp add: pow2_def)

lemma pow2_abs [simp]: "\<bar>pow2 k\<bar> = pow2 k"
  by (simp add: pow2_def)

lemma pow2_add: "pow2 (a + b) = pow2 a * pow2 b"
  by (simp add: pow2_def powr_add)

lemma pow2_less_iff [simp]: "pow2 a < pow2 b \<longleftrightarrow> a < b"
  by (simp add: pow2_def)

lemma pow2_le_iff [simp]: "pow2 a \<le> pow2 b \<longleftrightarrow> a \<le> b"
  by (simp add: pow2_def)

lemma pow2_nat: "pow2 (int n) = 2 ^ n"
  by (simp add: pow2_def powr_realpow)

lemma pow2_0 [simp]: "pow2 0 = 1"
  by (simp add: pow2_def)

lemma pow2_1 [simp]: "pow2 1 = 2"
  using pow2_nat [of 1] by simp

lemma pow2_Suc: "pow2 (k + 1) = 2 * pow2 k"
  by (simp add: pow2_add)

lemma of_int_pow2: "of_int (2 ^ n) = pow2 (int n)"
  by (simp add: pow2_nat)

lemma rne_of_int [simp]: "rne (of_int z) = z"
  by (simp add: rne_def)

lemma rne_bounds: "\<lfloor>x\<rfloor> \<le> rne x \<and> rne x \<le> \<lceil>x\<rceil>"
proof (cases "x = of_int \<lfloor>x\<rfloor>")
  case True
  then have "rne x = \<lfloor>x\<rfloor>" by (metis rne_of_int)
  then show ?thesis by (simp add: floor_le_ceiling)
next
  case False
  then have "\<lceil>x\<rceil> = \<lfloor>x\<rfloor> + 1"
    by (metis ceiling_altdef)
  then show ?thesis by (auto simp: rne_def Let_def)
qed

lemma rne_abs_le:
  assumes "\<bar>y\<bar> < of_int b"
  shows "\<bar>rne y\<bar> \<le> b"
proof -
  from assms have "y < of_int b" "of_int (- b) < y" by auto
  then have "\<lceil>y\<rceil> \<le> b" "- b \<le> \<lfloor>y\<rfloor>"
    by (simp_all add: ceiling_le_iff le_floor_iff less_imp_le)
  with rne_bounds [of y] show ?thesis by linarith
qed

lemma rne_abs_ge:
  assumes "of_int b \<le> \<bar>y\<bar>" "0 \<le> b"
  shows "b \<le> \<bar>rne y\<bar>"
proof (cases "0 \<le> y")
  case True
  with assms have "of_int b \<le> y" by simp
  then have "b \<le> \<lfloor>y\<rfloor>" by (simp only: le_floor_iff)
  with rne_bounds [of y] assms(2) show ?thesis by linarith
next
  case False
  with assms have "y \<le> of_int (- b)" by simp
  then have "\<lceil>y\<rceil> \<le> - b" by (simp only: ceiling_le_iff)
  with rne_bounds [of y] assms(2) show ?thesis by linarith
qed

lemma expo_bounds:
  assumes "x \<noteq> 0"
  shows "pow2 (expo x) \<le> \<bar>x\<bar>" "\<bar>x\<bar> < pow2 (expo x + 1)"
proof -
  have "0 < \<bar>x\<bar>" using assms by simp
  from floor_log_eq_powr_iff [OF this, of 2 "expo x"]
  show "pow2 (expo x) \<le> \<bar>x\<bar>" "\<bar>x\<bar> < pow2 (expo x + 1)"
    by (simp_all add: expo_def pow2_def)
qed

lemma expo_less:
  assumes "x \<noteq> 0" "\<bar>x\<bar> < pow2 k"
  shows "expo x < k"
proof -
  have "pow2 (expo x) < pow2 k"
    using expo_bounds(1) [OF assms(1)] assms(2) by linarith
  then show ?thesis by simp
qed

lemma expo_ge:
  assumes "x \<noteq> 0" "pow2 k \<le> \<bar>x\<bar>"
  shows "k \<le> expo x"
proof -
  have "pow2 k < pow2 (expo x + 1)"
    using expo_bounds(2) [OF assms(1)] assms(2) by linarith
  then show ?thesis by simp
qed

text \<open>Values of the form m * 2^k with a 24-bit m in the exponent range of float32.\<close>

definition representable :: "real \<Rightarrow> bool" where
  "representable x \<longleftrightarrow>
     (\<exists>m k. x = of_int m * pow2 k \<and> \<bar>m\<bar> < 2 ^ 24 \<and> - 149 \<le> k \<and> k \<le> 104)"

lemma abs_int_pow2:
  "\<bar>of_int m * pow2 k\<bar> = of_int \<bar>m\<bar> * pow2 k"
  by (simp add: abs_mult)

lemma int_pow2_less:
  assumes "\<bar>m\<bar> < 2 ^ n"
  shows "of_int \<bar>m\<bar> * pow2 k < pow2 (int n + k)"
proof -
  have "(of_int \<bar>m\<bar> :: real) < of_int (2 ^ n)" using assms by (simp only: of_int_less_iff)
  then have "(of_int \<bar>m\<bar> :: real) < pow2 (int n)" by (simp only: of_int_pow2)
  then have "of_int \<bar>m\<bar> * pow2 k < pow2 (int n) * pow2 k"
    by (intro mult_strict_right_mono) simp_all
  then show ?thesis by (simp only: pow2_add)
qed

lemma int_pow2_le:
  assumes "\<bar>m\<bar> \<le> 2 ^ n"
  shows "of_int \<bar>m\<bar> * pow2 k \<le> pow2 (int n + k)"
proof -
  have "(of_int \<bar>m\<bar> :: real) \<le> of_int (2 ^ n)" using assms by (simp only: of_int_le_iff)
  then have "(of_int \<bar>m\<bar> :: real) \<le> pow2 (int n)" by (simp only: of_int_pow2)
  then have "of_int \<bar>m\<bar> * pow2 k \<le> pow2 (int n) * pow2 k"
    by (intro mult_right_mono) simp_all
  then show ?thesis by (simp only: pow2_add)
qed

lemma int_pow2_ge:
  assumes "2 ^ n \<le> \<bar>m\<bar>"
  shows "pow2 (int n + k) \<le> of_int \<bar>m\<bar> * pow2 k"
proof -
  have "(of_int (2 ^ n) :: real) \<le> of_int \<bar>m\<bar>" using assms by (simp only: of_int_le_iff)
  then have "pow2 (int n) \<le> (of_int \<bar>m\<bar> :: real)" by (simp only: of_int_pow2)
  then have "pow2 (int n) * pow2 k \<le> of_int \<bar>m\<bar> * pow2 k"
    by (intro mult_right_mono) simp_all
  then show ?thesis by (simp only: pow2_add)
qed

lemma pow2_split:
  assumes "e \<le> k"
  shows "pow2 k = of_int (2 ^ nat (k - e)) * pow2 e"
proof -
  have "pow2 k = pow2 (int (nat (k - e)) + e)" using assms by simp
  also have "\<dots> = pow2 (int (nat (k - e))) * pow2 e" by (rule pow2_add)
  finally show ?thesis by (simp only: of_int_pow2)
qed

lemma div_ulp:
  assumes "(x::real) = of_int z * u" "u \<noteq> 0"
  shows "x / u = of_int z"
  using assms by simp

lemma round32_exact:
  assumes "representable x"
  shows "round32 x = Fin x"
proof (cases "x = 0")
  case True
  then show ?thesis by (simp add: round32_def)
next
  case False
  from assms obtain m k where x: "x = of_int m * pow2 k"
    and m: "\<bar>m\<bar> < 2 ^ 24" and k: "- 149 \<le> k" "k \<le> 104"
    by (auto simp: representable_def)
  define e where "e = max (expo x) (- 126) - 23"
  have u: "ulp32 x = pow2 e" by (simp add: ulp32_def e_def)
  have lt: "\<bar>x\<bar> < pow2 (24 + k)"
    unfolding x abs_int_pow2 using int_pow2_less [OF m, of k] by simp
  then have "expo x < 24 + k" by (rule expo_less [OF False])
  with k have ek: "e \<le> k" by (simp add: e_def)
  have xe: "x = of_int (m * 2 ^ nat (k - e)) * pow2 e"
    unfolding x by (subst pow2_split [OF ek]) simp
  have "x / ulp32 x = of_int (m * 2 ^ nat (k - e))"
    unfolding u by (rule div_ulp [OF xe]) simp
  then have "rne (x / ulp32 x) = m * 2 ^ nat (k - e)"
    by (simp only: rne_of_int)
  then have r: "of_int (rne (x / ulp32 x)) * ulp32 x = x"
    unfolding u using xe by simp
  have "pow2 (24 + k) \<le> pow2 128" using k by simp
  with lt have "\<not> pow2 128 \<le> \<bar>x\<bar>" by linarith
  with False r show ?thesis by (simp add: round32_def Let_def)
qed

lemma representable_int:
  assumes "\<bar>n\<bar> < 2 ^ 24"
  shows "representable (of_int n)"
  unfolding representable_def
  by (rule exI [of _ n], rule exI [of _ 0]) (use assms in simp)

lemma round32_int: "\<bar>n\<bar> < 2 ^ 24 \<Longrightarrow> round32 (of_int n) = Fin (of_int n)"
  by (rule round32_exact [OF representable_int])

lemma round32_quotient_bound:
  assumes "x \<noteq> 0"
  shows "\<bar>x / ulp32 x\<bar> < of_int (2 ^ 24)"
proof -
  define e where "e = max (expo x) (- 126) - 23"
  have u: "ulp32 x = pow2 e" by (simp add: ulp32_def e_def)
  have "expo x + 1 \<le> 24 + e" by (simp add: e_def)
  then have "pow2 (expo x + 1) \<le> pow2 (24 + e)" by simp
  with expo_bounds(2) [OF assms] have "\<bar>x\<bar> < pow2 (24 + e)" by linarith
  also have "\<dots> = of_int (2 ^ 24) * pow2 e" by (simp only: pow2_add of_int_pow2) simp
  finally have "\<bar>x\<bar> / pow2 e < of_int (2 ^ 24)"
    by (simp only: pos_divide_less_eq pow2_pos)
  then show ?thesis by (simp add: u)
qed

lemma round32_quotient_lower:
  assumes "x \<noteq> 0" "- 126 \<le> expo x"
  shows "of_int (2 ^ 23) \<le> \<bar>x / ulp32 x\<bar>"
proof -
  define e where "e = expo x - 23"
  have u: "ulp32 x = pow2 e" using assms(2) by (simp add: ulp32_def e_def)
  have "pow2 (expo x) = pow2 (23 + e)" by (simp add: e_def)
  also have "\<dots> = of_int (2 ^ 23) * pow2 e" by (simp only: pow2_add of_int_pow2) simp
  finally have "of_int (2 ^ 23) * pow2 e \<le> \<bar>x\<bar>" using expo_bounds(1) [OF assms(1)] by simp
  then have "of_int (2 ^ 23) \<le> \<bar>x\<bar> / pow2 e"
    by (simp only: pos_le_divide_eq pow2_pos)
  then show ?thesis by (simp add: u)
qed

lemma round32_representable:
  assumes "round32 x = Fin r"
  shows "representable r"
proof (cases "x = 0")
  case True
  with assms have "r = 0" by (simp add: round32_def)
  then show ?thesis using representable_int [of 0] by simp
next
  case False
  define e where "e = max (expo x) (- 126) - 23"
  define M where "M = rne (x / ulp32 x)"
  have u: "ulp32 x = pow2 e" by (simp add: ulp32_def e_def)
  from assms False have r: "r = of_int M * pow2 e" and fin: "\<bar>r\<bar> < pow2 128"
    by (auto simp: round32_def Let_def M_def u split: if_splits)
  have M24: "\<bar>M\<bar> \<le> 2 ^ 24"
    unfolding M_def by (rule rne_abs_le [OF round32_quotient_bound [OF False]])
  have e149: "- 149 \<le> e" by (simp add: e_def)
  have absr: "\<bar>r\<bar> = of_int \<bar>M\<bar> * pow2 e" unfolding r by (rule abs_int_pow2)
  show ?thesis
  proof (cases "M = 0")
    case True
    then show ?thesis using representable_int [of 0] by (simp add: r)
  next
    case M0: False
    show ?thesis
    proof (cases "\<bar>M\<bar> = 2 ^ 24")
      case True
      then have "2 ^ 24 \<le> \<bar>M\<bar>" by simp
      then have "pow2 (int 24 + e) \<le> of_int \<bar>M\<bar> * pow2 e" by (rule int_pow2_ge)
      moreover have "of_int \<bar>M\<bar> * pow2 e < pow2 128" using fin unfolding absr .
      ultimately have "pow2 (int 24 + e) < pow2 128" by linarith
      then have e104: "e + 1 \<le> 104" by simp
      from True have Mc: "M = 2 ^ 24 \<or> M = - (2 ^ 24)" by linarith
      then have M2: "M = (M div 2) * 2" by auto
      have "pow2 (e + 1) = 2 * pow2 e" by (rule pow2_Suc)
      then have "of_int (M div 2) * pow2 (e + 1) = of_int ((M div 2) * 2) * pow2 e" by simp
      also have "\<dots> = r" using M2 by (simp add: r)
      finally have "r = of_int (M div 2) * pow2 (e + 1)" by simp
      moreover from Mc have "\<bar>M div 2\<bar> < 2 ^ 24" by auto
      ultimately show ?thesis
        unfolding representable_def using e149 e104
        by (intro exI [of _ "M div 2"] exI [of _ "e + 1"]) simp
    next
      case False
      with M24 have lt: "\<bar>M\<bar> < 2 ^ 24" by simp
      have "e \<le> 104"
      proof (cases "- 126 \<le> expo x")
        case True
        then have ee: "e = expo x - 23" by (simp add: e_def)
        have "2 ^ 23 \<le> \<bar>M\<bar>"
          unfolding M_def
          by (rule rne_abs_ge [OF round32_quotient_lower [OF \<open>x \<noteq> 0\<close> True]]) simp
        then have "pow2 (int 23 + e) \<le> of_int \<bar>M\<bar> * pow2 e" by (rule int_pow2_ge)
        moreover have "of_int \<bar>M\<bar> * pow2 e < pow2 128" using fin unfolding absr .
        ultimately have "pow2 (int 23 + e) < pow2 128" by linarith
        then show ?thesis by simp
      next
        case False
        then show ?thesis by (simp add: e_def)
      qed
      with lt e149 show ?thesis
        unfolding representable_def by (intro exI [of _ M] exI [of _ e]) (simp add: r)
    qed
  qed
qed

lemma round32_idem: "round32 x = Fin r \<Longrightarrow> round32 r = Fin r"
  by (rule round32_exact [OF round32_representable])

lemma representable_double:
  assumes "representable r" "\<bar>r\<bar> < pow2 104"
  shows "representable (2 * r)"
proof -
  from assms(1) obtain m k where r: "r = of_int m * pow2 k"
    and m: "\<bar>m\<bar> < 2 ^ 24" and k: "- 149 \<le> k" "k \<le> 104"
    by (auto simp: representable_def)
  show ?thesis
  proof (cases "m = 0")
    case True
    then show ?thesis using representable_int [of 0] by (simp add: r)
  next
    case False
    then have "2 ^ 0 \<le> \<bar>m\<bar>" by simp
    then have "pow2 (int 0 + k) \<le> of_int \<bar>m\<bar> * pow2 k" by (rule int_pow2_ge)
    moreover have "of_int \<bar>m\<bar> * pow2 k < pow2 104" using assms(2) unfolding r abs_int_pow2 .
    ultimately have "pow2 (int 0 + k) < pow2 104" by linarith
    then have "k + 1 \<le> 104" by simp
    moreover have "pow2 (k + 1) = 2 * pow2 k" by (rule pow2_Suc)
    then have "2 * r = of_int m * pow2 (k + 1)" by (simp add: r)
    ultimately show ?thesis
      unfolding representable_def using m k by (intro exI [of _ m] exI [of _ "k + 1"]) simp
  qed
qed

text \<open>The conversion of a non-zero 64-bit integer.\<close>

lemma round32_of_int64:
  assumes "n \<noteq> 0" "\<bar>n\<bar> \<le> 2 ^ 63"
  shows "\<exists>r. round32 (of_int n) = Fin r \<and> r \<noteq> 0 \<and> \<bar>r\<bar> \<le> pow2 64"
proof -
  define x :: real where "x = of_int n"
  have x0: "x \<noteq> 0" using assms by (simp add: x_def)
  have xa: "\<bar>x\<bar> = of_int \<bar>n\<bar> * pow2 0" by (simp add: x_def)
  have "2 ^ 0 \<le> \<bar>n\<bar>" using assms by simp
  then have "pow2 (int 0 + 0) \<le> of_int \<bar>n\<bar> * pow2 0" by (rule int_pow2_ge)
  then have "pow2 0 \<le> \<bar>x\<bar>" unfolding xa by simp
  then have e0: "0 \<le> expo x" by (rule expo_ge [OF x0])
  have "of_int \<bar>n\<bar> * pow2 0 \<le> pow2 (int 63 + 0)" by (rule int_pow2_le [OF assms(2)])
  then have "\<bar>x\<bar> \<le> pow2 63" unfolding xa by simp
  with expo_bounds(1) [OF x0] have "pow2 (expo x) \<le> pow2 63" by linarith
  then have e63: "expo x \<le> 63" by simp
  define e where "e = expo x - 23"
  define M where "M = rne (x / ulp32 x)"
  have u: "ulp32 x = pow2 e" using e0 by (simp add: ulp32_def e_def)
  have M24: "\<bar>M\<bar> \<le> 2 ^ 24"
    unfolding M_def by (rule rne_abs_le [OF round32_quotient_bound [OF x0]])
  have l: "- 126 \<le> expo x" using e0 by simp
  have M23: "2 ^ 23 \<le> \<bar>M\<bar>"
    unfolding M_def by (rule rne_abs_ge [OF round32_quotient_lower [OF x0 l]]) simp
  define r where "r = of_int M * pow2 e"
  have absr: "\<bar>r\<bar> = of_int \<bar>M\<bar> * pow2 e" unfolding r_def by (rule abs_int_pow2)
  have "\<bar>r\<bar> \<le> pow2 (int 24 + e)" unfolding absr by (rule int_pow2_le [OF M24])
  also have "\<dots> \<le> pow2 64" using e63 by (simp add: e_def)
  finally have r64: "\<bar>r\<bar> \<le> pow2 64" .
  have "M \<noteq> 0" using M23 by auto
  then have r0: "r \<noteq> 0" by (simp add: r_def)
  have "pow2 64 < pow2 128" by simp
  with r64 have nb: "\<not> pow2 128 \<le> \<bar>r\<bar>" by linarith
  have rr: "of_int (rne (x / ulp32 x)) * ulp32 x = r" by (simp add: r_def M_def u)
  have "round32 x = Fin r"
    unfolding round32_def Let_def rr using x0 nb by simp
  with r0 r64 show ?thesis unfolding x_def by blast
qed

lemma round32_0 [simp]: "round32 0 = Fin 0"
  by (simp add: round32_def)

lemma round32_1 [simp]: "round32 1 = Fin 1"
  using round32_int [of 1] by simp

lemma round32_numeral:
  "numeral w < (2 ^ 24 :: int) \<Longrightarrow> round32 (numeral w) = Fin (numeral w)"
  using round32_int [of "numeral w"] by simp

lemma representable_dyadic:
  assumes "\<bar>m\<bar> < 2 ^ 24" "n \<le> 149"
  shows "representable (of_int m / 2 ^ n)"
proof -
  have "pow2 (- int n) * pow2 (int n) = 1"
    by (simp flip: pow2_add)
  then have "pow2 (- int n) = 1 / 2 ^ n"
    by (simp add: pow2_nat field_simps)
  then have "of_int m / 2 ^ n = of_int m * pow2 (- int n)" by simp
  then show ?thesis
    unfolding representable_def using assms
    by (intro exI [of _ m] exI [of _ "- int n"]) simp
qed

lemma round32_half: "round32 (1 / 2) = Fin (1 / 2)"
  using round32_exact [OF representable_dyadic [of 1 1]] by simp

lemma round32_quarter: "round32 (1 / 4) = Fin (1 / 4)"
  using round32_exact [OF representable_dyadic [of 1 2]] by simp

lemma f32_self_ratio:
  assumes "n \<noteq> 0" "\<bar>n\<bar> \<le> 2 ^ 63"
  shows "f32_div (f32_of_int n) (f32_sub (f32_add (f32_of_int n) (f32_of_int n)) (f32_of_int n)) =
         Fin 1"
proof -
  from round32_of_int64 [OF assms] obtain r where
    r: "round32 (of_int n) = Fin r" "r \<noteq> 0" "\<bar>r\<bar> \<le> pow2 64"
    by blast
  have rep: "representable r" by (rule round32_representable [OF r(1)])
  have "pow2 64 < pow2 104" by simp
  with r(3) have "\<bar>r\<bar> < pow2 104" by linarith
  then have "representable (2 * r)" by (rule representable_double [OF rep])
  then have d: "round32 (2 * r) = Fin (2 * r)" by (rule round32_exact)
  have s: "round32 r = Fin r" by (rule round32_exact [OF rep])
  have "r + r = 2 * r" by simp
  then have a: "f32_add (Fin r) (Fin r) = Fin (2 * r)" by (simp only: f32_add.simps d)
  have "2 * r + - r = r" by simp
  then have b: "f32_sub (Fin (2 * r)) (Fin r) = Fin r"
    by (simp only: f32_sub_def f32_neg.simps f32_add.simps s)
  have c: "f32_div (Fin r) (Fin r) = Fin 1" using r(2) by simp
  show ?thesis by (simp only: f32_of_int_def r(1) a b c)
qed

lemmas f32_eval =
  f32_of_int_def f32_sub_def f32_lt_def round32_numeral round32_half round32_quarter
  wrap64_def

section \<open>Properties of the detection postprocessor\<close>

lemma wrap64_range: "- (2 ^ 63) \<le> wrap64 n \<and> wrap64 n < 2 ^ 63"
proof -
  have "0 \<le> (n + 2 ^ 63) mod 2 ^ 64" "(n + 2 ^ 63) mod 2 ^ 64 < (2 ^ 64 :: int)"
    by simp_all
  then show ?thesis unfolding wrap64_def by auto
qed

subsection \<open>Intersection over union\<close>

text \<open>
  Inside an image of fewer than \<open>2^31\<close> pixels a side nothing wraps: the area that the
  code computes is the area of the box.
\<close>

lemma box_area_small:
  assumes "0 \<le> X1 b" "X1 b \<le> X2 b" "X2 b < 2 ^ 31" "0 \<le> Y1 b" "Y1 b \<le> Y2 b" "Y2 b < 2 ^ 31"
  shows "box_area b = (X2 b - X1 b) * (Y2 b - Y1 b)"
proof -
  have w: "0 \<le> X2 b - X1 b" "X2 b - X1 b < 2 ^ 31" using assms by auto
  have h: "0 \<le> Y2 b - Y1 b" "Y2 b - Y1 b < 2 ^ 31" using assms by auto
  have "(X2 b - X1 b) * (Y2 b - Y1 b) \<le> 2 ^ 31 * (Y2 b - Y1 b)"
    using w h by (intro mult_right_mono) auto
  also have "\<dots> \<le> 2 ^ 31 * 2 ^ 31"
    using h by (intro mult_left_mono) auto
  finally have p: "(X2 b - X1 b) * (Y2 b - Y1 b) < 2 ^ 63" by simp
  have p0: "0 \<le> (X2 b - X1 b) * (Y2 b - Y1 b)" using w h by simp
  have "wrap64 (X2 b - X1 b) = X2 b - X1 b" "wrap64 (Y2 b - Y1 b) = Y2 b - Y1 b"
    using w h by (simp_all add: wrap64_id)
  then show ?thesis
    unfolding box_area_def using p p0 by (simp add: wrap64_id)
qed

text \<open>
  C5, amended. The IoU of a box of positive width and height with itself is 1.0 when the
  area that the code computes, in Go's 64-bit int, is not 0, and NaN (the quotient
  \<open>0 / 0\<close>) when that area has wrapped to 0; it is 1.0 for every such box with coordinates
  from 0 to below \<open>2^31\<close>. The IoU of two boxes is 0.0 when they do not overlap or their
  intersection has no width or no height. In every other case it is the area of the
  intersection divided by \<open>areaA + areaB - intersection\<close>, computed in \<open>float32\<close> from the
  areas that the code computes in int.
\<close>

theorem computeIoU_cases:
  "(X1 a < X2 a \<and> Y1 a < Y2 a \<longrightarrow>
      computeIoU a a = (if box_area a = 0 then NaN else Fin 1)) \<and>
   (0 \<le> X1 a \<and> X1 a < X2 a \<and> X2 a < 2 ^ 31 \<and> 0 \<le> Y1 a \<and> Y1 a < Y2 a \<and> Y2 a < 2 ^ 31 \<longrightarrow>
      computeIoU a a = Fin 1) \<and>
   (X2 (intersection a b) \<le> X1 (intersection a b) \<or>
    Y2 (intersection a b) \<le> Y1 (intersection a b) \<longrightarrow> computeIoU a b = Fin 0) \<and>
   (X1 (intersection a b) < X2 (intersection a b) \<and>
    Y1 (intersection a b) < Y2 (intersection a b) \<longrightarrow>
      computeIoU a b =
        f32_div (area32 (intersection a b))
          (f32_sub (f32_add (area32 a) (area32 b)) (area32 (intersection a b))))"
proof -
  have self: "computeIoU a a = (if box_area a = 0 then NaN else Fin 1)"
    if h: "X1 a < X2 a \<and> Y1 a < Y2 a"
  proof -
    have n63: "\<bar>box_area a\<bar> \<le> 2 ^ 63"
      using wrap64_range [of "wrap64 (X2 a - X1 a) * wrap64 (Y2 a - Y1 a)"]
      unfolding box_area_def by linarith
    have c: "computeIoU a a =
        f32_div (f32_of_int (box_area a))
          (f32_sub (f32_add (f32_of_int (box_area a)) (f32_of_int (box_area a)))
             (f32_of_int (box_area a)))"
      using h by (simp add: computeIoU_def Let_def box_area_def)
    show ?thesis
    proof (cases "box_area a = 0")
      case True
      have "f32_div (f32_of_int 0) (f32_sub (f32_add (f32_of_int 0) (f32_of_int 0)) (f32_of_int 0)) =
          NaN"
        by (simp add: f32_of_int_def f32_sub_def)
      with c True show ?thesis by simp
    next
      case False
      with c show ?thesis by (simp only: f32_self_ratio [OF False n63] if_False)
    qed
  qed
  have small: "computeIoU a a = Fin 1"
    if h: "0 \<le> X1 a \<and> X1 a < X2 a \<and> X2 a < 2 ^ 31 \<and> 0 \<le> Y1 a \<and> Y1 a < Y2 a \<and> Y2 a < 2 ^ 31"
  proof -
    from h have "box_area a = (X2 a - X1 a) * (Y2 a - Y1 a)"
      by (intro box_area_small) simp_all
    moreover from h have "0 < (X2 a - X1 a) * (Y2 a - Y1 a)" by simp
    ultimately have "box_area a \<noteq> 0" by linarith
    with self h show ?thesis by simp
  qed
  have disjoint: "computeIoU a b = Fin 0"
    if "X2 (intersection a b) \<le> X1 (intersection a b) \<or>
      Y2 (intersection a b) \<le> Y1 (intersection a b)"
    using that by (simp add: computeIoU_def Let_def intersection_def)
  have ratio: "computeIoU a b =
        f32_div (area32 (intersection a b))
          (f32_sub (f32_add (area32 a) (area32 b)) (area32 (intersection a b)))"
    if h: "X1 (intersection a b) < X2 (intersection a b) \<and>
      Y1 (intersection a b) < Y2 (intersection a b)"
  proof -
    from h have nd: "\<not> (min (X2 a) (X2 b) \<le> max (X1 a) (X1 b) \<or>
        min (Y2 a) (Y2 b) \<le> max (Y1 a) (Y1 b))"
      by (simp add: intersection_def not_le)
    have ai: "area32 (intersection a b) =
        f32_of_int (wrap64 (wrap64 (min (X2 a) (X2 b) - max (X1 a) (X1 b)) *
          wrap64 (min (Y2 a) (Y2 b) - max (Y1 a) (Y1 b))))"
      by (simp add: area32_def box_area_def intersection_def)
    show ?thesis
      unfolding ai by (simp only: computeIoU_def Let_def nd if_False area32_def box_area_def)
  qed
  from self small disjoint ratio show ?thesis by blast
qed

text \<open>
  The theorem at the box \<open>(0, 0, 2, 2)\<close>: with itself the IoU is 1, with the disjoint box
  \<open>(5, 5, 7, 7)\<close> it is 0, and with \<open>(0, 0, 2, 4)\<close>, which contains it, it is
  \<open>4 / (4 + 8 - 4) = 1/2\<close>.
\<close>

theorem computeIoU_cases_witness:
  "X1 \<lparr>X1 = 0, Y1 = 0, X2 = 2, Y2 = 2\<rparr> < X2 \<lparr>X1 = 0, Y1 = 0, X2 = 2, Y2 = 2\<rparr> \<and>
   Y1 \<lparr>X1 = 0, Y1 = 0, X2 = 2, Y2 = 2\<rparr> < Y2 \<lparr>X1 = 0, Y1 = 0, X2 = 2, Y2 = 2\<rparr> \<and>
   X2 \<lparr>X1 = 0, Y1 = 0, X2 = 2, Y2 = 2\<rparr> < 2 ^ 31 \<and>
   box_area \<lparr>X1 = 0, Y1 = 0, X2 = 2, Y2 = 2\<rparr> = 4 \<and>
   computeIoU \<lparr>X1 = 0, Y1 = 0, X2 = 2, Y2 = 2\<rparr> \<lparr>X1 = 0, Y1 = 0, X2 = 2, Y2 = 2\<rparr> = Fin 1 \<and>
   computeIoU \<lparr>X1 = 0, Y1 = 0, X2 = 2, Y2 = 2\<rparr> \<lparr>X1 = 5, Y1 = 5, X2 = 7, Y2 = 7\<rparr> = Fin 0 \<and>
   computeIoU \<lparr>X1 = 0, Y1 = 0, X2 = 2, Y2 = 2\<rparr> \<lparr>X1 = 0, Y1 = 0, X2 = 2, Y2 = 4\<rparr> = Fin (1 / 2)"
  using computeIoU_cases [of "\<lparr>X1 = 0, Y1 = 0, X2 = 2, Y2 = 2\<rparr>" "\<lparr>X1 = 5, Y1 = 5, X2 = 7, Y2 = 7\<rparr>"]
    computeIoU_cases [of "\<lparr>X1 = 0, Y1 = 0, X2 = 2, Y2 = 2\<rparr>" "\<lparr>X1 = 0, Y1 = 0, X2 = 2, Y2 = 4\<rparr>"]
  by (simp add: box_area_def area32_def intersection_def f32_eval)

text \<open>
  C5, as the claim states it for every pair of integer boxes, fails where the product
  of width and height leaves Go's int. The box \<open>(0, 0, 2^32, 2^32)\<close> has positive width
  and height and the area \<open>2^64\<close>; the code computes the area 0, and the IoU of the box
  with itself is \<open>0 / 0\<close>, a NaN, not 1.0.
\<close>

theorem computeIoU_wrap_counterexample:
  "X1 \<lparr>X1 = 0, Y1 = 0, X2 = 4294967296, Y2 = 4294967296\<rparr> <
     X2 \<lparr>X1 = 0, Y1 = 0, X2 = 4294967296, Y2 = 4294967296\<rparr> \<and>
   Y1 \<lparr>X1 = 0, Y1 = 0, X2 = 4294967296, Y2 = 4294967296\<rparr> <
     Y2 \<lparr>X1 = 0, Y1 = 0, X2 = 4294967296, Y2 = 4294967296\<rparr> \<and>
   box_area \<lparr>X1 = 0, Y1 = 0, X2 = 4294967296, Y2 = 4294967296\<rparr> = 0 \<and>
   computeIoU \<lparr>X1 = 0, Y1 = 0, X2 = 4294967296, Y2 = 4294967296\<rparr>
     \<lparr>X1 = 0, Y1 = 0, X2 = 4294967296, Y2 = 4294967296\<rparr> = NaN \<and>
   computeIoU \<lparr>X1 = 0, Y1 = 0, X2 = 4294967296, Y2 = 4294967296\<rparr>
     \<lparr>X1 = 0, Y1 = 0, X2 = 4294967296, Y2 = 4294967296\<rparr> \<noteq> Fin 1"
  by (simp add: computeIoU_def box_area_def wrap64_def f32_of_int_def f32_sub_def)

subsection \<open>The suppression pass\<close>

lemma f32_add_commute: "f32_add a b = f32_add b a"
  by (cases a; cases b) (simp_all add: add.commute)

lemma computeIoU_commute: "computeIoU a b = computeIoU b a"
  by (simp add: computeIoU_def Let_def max.commute min.commute f32_add_commute [of "f32_of_int (wrap64 (wrap64 (X2 a - X1 a) * wrap64 (Y2 a - Y1 a)))"])

lemma mark_loop_props:
  assumes "length used = length dets"
  shows "length (mark_loop dets nmsThr i j used) = length dets \<and>
         (\<forall>k < length dets. used ! k \<longrightarrow> mark_loop dets nmsThr i j used ! k) \<and>
         (\<forall>k. j \<le> k \<and> k < length dets \<and> \<not> mark_loop dets nmsThr i j used ! k \<longrightarrow>
              \<not> f32_gt (computeIoU (box (dets ! i)) (box (dets ! k))) nmsThr)"
  using assms
proof (induction "length dets - j" arbitrary: j used)
  case 0
  then have nlt: "\<not> j < length dets" by simp
  then have e: "mark_loop dets nmsThr i j used = used"
    by (subst mark_loop.simps) simp
  show ?case unfolding e using 0 nlt by auto
next
  case (Suc n)
  then have lt: "j < length dets" by linarith
  from Suc.hyps(2) have n: "n = length dets - (j + 1)" by linarith
  show ?case
  proof (cases "used ! j \<or> \<not> f32_gt (computeIoU (box (dets ! i)) (box (dets ! j))) nmsThr")
    case True
    then have step: "mark_loop dets nmsThr i j used = mark_loop dets nmsThr i (j + 1) used"
      using lt by (subst mark_loop.simps) auto
    note IH = Suc.hyps(1) [OF n Suc.prems]
    have "\<forall>k. j \<le> k \<and> k < length dets \<and> \<not> mark_loop dets nmsThr i (j + 1) used ! k \<longrightarrow>
              \<not> f32_gt (computeIoU (box (dets ! i)) (box (dets ! k))) nmsThr"
    proof (intro allI impI)
      fix k
      assume k: "j \<le> k \<and> k < length dets \<and> \<not> mark_loop dets nmsThr i (j + 1) used ! k"
      show "\<not> f32_gt (computeIoU (box (dets ! i)) (box (dets ! k))) nmsThr"
      proof (cases "k = j")
        case kj: True
        with k IH lt have "\<not> used ! j" by auto
        with True kj show ?thesis by simp
      next
        case False
        with k have "j + 1 \<le> k" by simp
        with k IH show ?thesis by blast
      qed
    qed
    with IH show ?thesis unfolding step by blast
  next
    case False
    then have step: "mark_loop dets nmsThr i j used =
        mark_loop dets nmsThr i (j + 1) (used[j := True])"
      using lt by (subst mark_loop.simps) auto
    have len: "length (used[j := True]) = length dets" using Suc.prems by simp
    note IH = Suc.hyps(1) [OF n len]
    have mono: "\<forall>k < length dets. used ! k \<longrightarrow> mark_loop dets nmsThr i (j + 1) (used[j := True]) ! k"
    proof (intro allI impI)
      fix k assume "k < length dets" "used ! k"
      then have "(used[j := True]) ! k" using Suc.prems by (cases "k = j") simp_all
      with IH \<open>k < length dets\<close> show "mark_loop dets nmsThr i (j + 1) (used[j := True]) ! k"
        by blast
    qed
    have "\<forall>k. j \<le> k \<and> k < length dets \<and> \<not> mark_loop dets nmsThr i (j + 1) (used[j := True]) ! k \<longrightarrow>
              \<not> f32_gt (computeIoU (box (dets ! i)) (box (dets ! k))) nmsThr"
    proof (intro allI impI)
      fix k
      assume k: "j \<le> k \<and> k < length dets \<and> \<not> mark_loop dets nmsThr i (j + 1) (used[j := True]) ! k"
      have "(used[j := True]) ! j" using lt Suc.prems by simp
      with IH lt have "mark_loop dets nmsThr i (j + 1) (used[j := True]) ! j" by blast
      with k have "k \<noteq> j" by auto
      with k have "j + 1 \<le> k" by simp
      with k IH show "\<not> f32_gt (computeIoU (box (dets ! i)) (box (dets ! k))) nmsThr" by blast
    qed
    with IH mono show ?thesis unfolding step by blast
  qed
qed

lemma nms_loop_sorted:
  assumes "length used = length dets"
    and "sorted_wrt (\<lambda>a b. \<not> f32_gt (computeIoU a b) nmsThr) result"
    and "\<forall>b\<in>set result. \<forall>k. i \<le> k \<and> k < length dets \<and> \<not> used ! k \<longrightarrow>
           \<not> f32_gt (computeIoU b (box (dets ! k))) nmsThr"
  shows "sorted_wrt (\<lambda>a b. \<not> f32_gt (computeIoU a b) nmsThr) (nms_loop dets nmsThr i used result)"
  using assms
proof (induction "length dets - i" arbitrary: i used result)
  case 0
  then have "\<not> i < length dets" by simp
  then show ?case using 0 by (subst nms_loop.simps) simp
next
  case (Suc n)
  then have lt: "i < length dets" by linarith
  from Suc.hyps(2) have n: "n = length dets - (i + 1)" by linarith
  show ?case
  proof (cases "used ! i")
    case True
    then have step: "nms_loop dets nmsThr i used result = nms_loop dets nmsThr (i + 1) used result"
      using lt by (subst nms_loop.simps) simp
    have "\<forall>b\<in>set result. \<forall>k. i + 1 \<le> k \<and> k < length dets \<and> \<not> used ! k \<longrightarrow>
           \<not> f32_gt (computeIoU b (box (dets ! k))) nmsThr"
      using Suc.prems(3) by auto
    from Suc.hyps(1) [OF n Suc.prems(1,2) this] show ?thesis unfolding step .
  next
    case False
    let ?used = "mark_loop dets nmsThr i (i + 1) used"
    let ?result = "result @ [box (dets ! i)]"
    have step: "nms_loop dets nmsThr i used result = nms_loop dets nmsThr (i + 1) ?used ?result"
      using lt False by (subst nms_loop.simps) simp
    note m = mark_loop_props [OF Suc.prems(1), of nmsThr i "i + 1"]
    from m have len: "length ?used = length dets" by blast
    have "\<forall>b\<in>set result. \<not> f32_gt (computeIoU b (box (dets ! i))) nmsThr"
      using Suc.prems(3) lt False by auto
    with Suc.prems(2) have srt: "sorted_wrt (\<lambda>a b. \<not> f32_gt (computeIoU a b) nmsThr) ?result"
      by (simp add: sorted_wrt_append)
    have cov: "\<forall>b\<in>set ?result. \<forall>k. i + 1 \<le> k \<and> k < length dets \<and> \<not> ?used ! k \<longrightarrow>
           \<not> f32_gt (computeIoU b (box (dets ! k))) nmsThr"
    proof (intro ballI allI impI)
      fix b k
      assume b: "b \<in> set ?result" and k: "i + 1 \<le> k \<and> k < length dets \<and> \<not> ?used ! k"
      show "\<not> f32_gt (computeIoU b (box (dets ! k))) nmsThr"
      proof (cases "b \<in> set result")
        case True
        from k m have "\<not> used ! k" by blast
        with True k Suc.prems(3) show ?thesis by auto
      next
        case False
        with b have "b = box (dets ! i)" by simp
        with k m show ?thesis by blast
      qed
    qed
    from Suc.hyps(1) [OF n len srt cov] show ?thesis unfolding step .
  qed
qed

text \<open>
  C4. Whatever the list of candidate detections and the threshold are, no two boxes at
  different positions of the list that the suppression pass returns have an IoU greater
  than \<open>nmsThr\<close>.
\<close>

theorem suppress_no_overlap:
  "\<forall>p q. p < length (suppress dets nmsThr) \<and> q < length (suppress dets nmsThr) \<and> p \<noteq> q \<longrightarrow>
     \<not> f32_gt (computeIoU (suppress dets nmsThr ! p) (suppress dets nmsThr ! q)) nmsThr"
proof (intro allI impI)
  fix p q
  assume pq: "p < length (suppress dets nmsThr) \<and> q < length (suppress dets nmsThr) \<and> p \<noteq> q"
  have "sorted_wrt (\<lambda>a b. \<not> f32_gt (computeIoU a b) nmsThr) (suppress dets nmsThr)"
    unfolding suppress_def by (rule nms_loop_sorted) simp_all
  then have ord: "\<And>i j. i < j \<Longrightarrow> j < length (suppress dets nmsThr) \<Longrightarrow>
      \<not> f32_gt (computeIoU (suppress dets nmsThr ! i) (suppress dets nmsThr ! j)) nmsThr"
    by (simp add: sorted_wrt_iff_nth_less)
  show "\<not> f32_gt (computeIoU (suppress dets nmsThr ! p) (suppress dets nmsThr ! q)) nmsThr"
  proof (cases "p < q")
    case True
    with pq ord show ?thesis by blast
  next
    case False
    with pq have "q < p" by simp
    with pq ord [of q p] show ?thesis by (simp add: computeIoU_commute)
  qed
qed

text \<open>
  The theorem at four detections and the threshold \<open>0.45\<close> of \<open>Detection\<close> (as a
  \<open>float32\<close>, \<open>15099494 / 2^25\<close>): the second box has IoU \<open>1/2\<close> with the first and is
  suppressed; the fourth has IoU \<open>1/4\<close> with the first and is kept.
\<close>

theorem suppress_no_overlap_witness:
  "suppress
     [\<lparr>box = \<lparr>X1 = 0, Y1 = 0, X2 = 2, Y2 = 2\<rparr>, score = Fin (9 / 10)\<rparr>,
      \<lparr>box = \<lparr>X1 = 0, Y1 = 0, X2 = 2, Y2 = 4\<rparr>, score = Fin (8 / 10)\<rparr>,
      \<lparr>box = \<lparr>X1 = 5, Y1 = 5, X2 = 7, Y2 = 7\<rparr>, score = Fin (7 / 10)\<rparr>,
      \<lparr>box = \<lparr>X1 = 0, Y1 = 0, X2 = 4, Y2 = 4\<rparr>, score = Fin (6 / 10)\<rparr>]
     (Fin (15099494 / 33554432)) =
     [\<lparr>X1 = 0, Y1 = 0, X2 = 2, Y2 = 2\<rparr>, \<lparr>X1 = 5, Y1 = 5, X2 = 7, Y2 = 7\<rparr>,
      \<lparr>X1 = 0, Y1 = 0, X2 = 4, Y2 = 4\<rparr>] \<and>
   \<not> f32_gt (computeIoU \<lparr>X1 = 0, Y1 = 0, X2 = 2, Y2 = 2\<rparr> \<lparr>X1 = 0, Y1 = 0, X2 = 4, Y2 = 4\<rparr>)
       (Fin (15099494 / 33554432))"
proof -
  let ?dets = "[\<lparr>box = \<lparr>X1 = 0, Y1 = 0, X2 = 2, Y2 = 2\<rparr>, score = Fin (9 / 10)\<rparr>,
      \<lparr>box = \<lparr>X1 = 0, Y1 = 0, X2 = 2, Y2 = 4\<rparr>, score = Fin (8 / 10)\<rparr>,
      \<lparr>box = \<lparr>X1 = 5, Y1 = 5, X2 = 7, Y2 = 7\<rparr>, score = Fin (7 / 10)\<rparr>,
      \<lparr>box = \<lparr>X1 = 0, Y1 = 0, X2 = 4, Y2 = 4\<rparr>, score = Fin (6 / 10)\<rparr>]"
  have s: "suppress ?dets (Fin (15099494 / 33554432)) =
     [\<lparr>X1 = 0, Y1 = 0, X2 = 2, Y2 = 2\<rparr>, \<lparr>X1 = 5, Y1 = 5, X2 = 7, Y2 = 7\<rparr>,
      \<lparr>X1 = 0, Y1 = 0, X2 = 4, Y2 = 4\<rparr>]"
    by (simp add: suppress_def nms_loop.simps mark_loop.simps computeIoU_def f32_eval)
  from suppress_no_overlap [of ?dets "Fin (15099494 / 33554432)"]
  have "0 < length (suppress ?dets (Fin (15099494 / 33554432))) \<and>
        2 < length (suppress ?dets (Fin (15099494 / 33554432))) \<and> (0::nat) \<noteq> 2 \<longrightarrow>
     \<not> f32_gt (computeIoU (suppress ?dets (Fin (15099494 / 33554432)) ! 0)
           (suppress ?dets (Fin (15099494 / 33554432)) ! 2)) (Fin (15099494 / 33554432))"
    by blast
  then have "\<not> f32_gt (computeIoU \<lparr>X1 = 0, Y1 = 0, X2 = 2, Y2 = 2\<rparr>
      \<lparr>X1 = 0, Y1 = 0, X2 = 4, Y2 = 4\<rparr>) (Fin (15099494 / 33554432))"
    unfolding s by simp
  with s show ?thesis by (simp only: simp_thms)
qed

subsection \<open>Corner conversion and clipping\<close>

lemma collect_dets_from_rows:
  assumes "collect_dets predictions ratio origW origH scoreThr acc = Inr dets" "d \<in> set dets"
  shows "d \<in> set acc \<or>
         (\<exists>pred\<in>set predictions. row_detection pred ratio origW origH scoreThr = Inr (Some d))"
  using assms
proof (induction predictions arbitrary: acc)
  case Nil
  then show ?case by simp
next
  case (Cons pred preds)
  show ?case
  proof (cases "row_detection pred ratio origW origH scoreThr")
    case (Inl e)
    with Cons.prems show ?thesis by simp
  next
    case (Inr r)
    show ?thesis
    proof (cases r)
      case None
      with Inr Cons.prems have "collect_dets preds ratio origW origH scoreThr acc = Inr dets"
        by simp
      from Cons.IH [OF this Cons.prems(2)] show ?thesis by auto
    next
      case (Some d')
      with Inr Cons.prems
      have "collect_dets preds ratio origW origH scoreThr (acc @ [d']) = Inr dets"
        by simp
      from Cons.IH [OF this Cons.prems(2)] Inr Some show ?thesis by auto
    qed
  qed
qed

lemma row_detection_Some:
  assumes "row_detection pred ratio origW origH scoreThr = Inr (Some d)"
  shows "box d = clip_box (row_corners pred ratio) origW origH \<and>
         score d = f32_mul (pred ! 4) (max_class_score pred) \<and> \<not> f32_lt (score d) scoreThr"
  using assms
  by (auto simp: row_detection_def go_index_def Let_def split: if_splits sum.splits)

text \<open>
  C3, amended. Every box that the conversion and clipping step produces for image
  dimensions \<open>origW, origH \<ge> 0\<close> comes from a prediction row and satisfies \<open>0 \<le> x1\<close>,
  \<open>0 \<le> y1\<close>, \<open>x2 \<le> origW\<close> and \<open>y2 \<le> origH\<close>. It satisfies \<open>x1 \<le> x2\<close> exactly when the
  corners of the row before clipping satisfy \<open>x1 \<le> x2\<close>, \<open>x1 \<le> origW\<close> and \<open>0 \<le> x2\<close>, that
  is, when the unclipped box meets the image horizontally; and likewise \<open>y1 \<le> y2\<close>.
\<close>

theorem collect_dets_boxes:
  assumes "collect_dets predictions ratio origW origH scoreThr [] = Inr dets" and "d \<in> set dets"
    and "0 \<le> origW" "0 \<le> origH"
  shows "\<exists>pred\<in>set predictions.
           box d = clip_box (row_corners pred ratio) origW origH \<and>
           0 \<le> X1 (box d) \<and> 0 \<le> Y1 (box d) \<and> X2 (box d) \<le> origW \<and> Y2 (box d) \<le> origH \<and>
           (case row_corners pred ratio of
              (x1, y1, x2, y2) \<Rightarrow>
                (X1 (box d) \<le> X2 (box d) \<longleftrightarrow> x1 \<le> x2 \<and> x1 \<le> origW \<and> 0 \<le> x2) \<and>
                (Y1 (box d) \<le> Y2 (box d) \<longleftrightarrow> y1 \<le> y2 \<and> y1 \<le> origH \<and> 0 \<le> y2))"
proof -
  from collect_dets_from_rows [OF assms(1,2)] obtain pred where
    p: "pred \<in> set predictions" "row_detection pred ratio origW origH scoreThr = Inr (Some d)"
    by auto
  from row_detection_Some [OF p(2)]
  have b: "box d = clip_box (row_corners pred ratio) origW origH" by simp
  obtain x1 y1 x2 y2 where c: "row_corners pred ratio = (x1, y1, x2, y2)"
    by (cases "row_corners pred ratio") auto
  have f: "0 \<le> X1 (box d) \<and> 0 \<le> Y1 (box d) \<and> X2 (box d) \<le> origW \<and> Y2 (box d) \<le> origH \<and>
      (X1 (box d) \<le> X2 (box d) \<longleftrightarrow> x1 \<le> x2 \<and> x1 \<le> origW \<and> 0 \<le> x2) \<and>
      (Y1 (box d) \<le> Y2 (box d) \<longleftrightarrow> y1 \<le> y2 \<and> y1 \<le> origH \<and> 0 \<le> y2)"
    using assms(3,4) unfolding b c clip_box_def by auto
  show ?thesis
  proof (rule bexI [OF _ p(1)])
    show "box d = clip_box (row_corners pred ratio) origW origH \<and>
           0 \<le> X1 (box d) \<and> 0 \<le> Y1 (box d) \<and> X2 (box d) \<le> origW \<and> Y2 (box d) \<le> origH \<and>
           (case row_corners pred ratio of
              (x1, y1, x2, y2) \<Rightarrow>
                (X1 (box d) \<le> X2 (box d) \<longleftrightarrow> x1 \<le> x2 \<and> x1 \<le> origW \<and> 0 \<le> x2) \<and>
                (Y1 (box d) \<le> Y2 (box d) \<longleftrightarrow> y1 \<le> y2 \<and> y1 \<le> origH \<and> 0 \<le> y2))"
      using f b by (simp only: c prod.case simp_thms)
  qed
qed

text \<open>
  The theorem at a 208 by 416 image, ratio 1, and a row centred at \<open>(100, 100)\<close> of size
  20 by 20, inside the image: the box is \<open>(90, 90, 110, 110)\<close>.
\<close>

theorem collect_dets_boxes_witness:
  "collect_dets [[Fin 100, Fin 100, Fin 20, Fin 20, Fin 1, Fin 1]] (Fin 1) 208 416
     (Fin (13421773 / 134217728)) [] =
     Inr [\<lparr>box = \<lparr>X1 = 90, Y1 = 90, X2 = 110, Y2 = 110\<rparr>, score = Fin 1\<rparr>] \<and>
   row_corners [Fin 100, Fin 100, Fin 20, Fin 20, Fin 1, Fin 1] (Fin 1) = (90, 90, 110, 110) \<and>
   X1 \<lparr>X1 = 90, Y1 = 90, X2 = 110, Y2 = 110\<rparr> \<le> X2 \<lparr>X1 = 90, Y1 = 90, X2 = 110, Y2 = 110\<rparr>"
proof -
  have c: "collect_dets [[Fin 100, Fin 100, Fin 20, Fin 20, Fin 1, Fin 1]] (Fin 1) 208 416
     (Fin (13421773 / 134217728)) [] =
     Inr [\<lparr>box = \<lparr>X1 = 90, Y1 = 90, X2 = 110, Y2 = 110\<rparr>, score = Fin 1\<rparr>]"
    by (simp add: row_detection_def go_index_def max_class_score_def row_corners_def clip_box_def
        f32_to_int_def f32_eval)
  have r: "row_corners [Fin 100, Fin 100, Fin 20, Fin 20, Fin 1, Fin 1] (Fin 1) =
      (90, 90, 110, 110)"
    by (simp add: row_corners_def f32_to_int_def f32_eval)
  from collect_dets_boxes [OF c, of "\<lparr>box = \<lparr>X1 = 90, Y1 = 90, X2 = 110, Y2 = 110\<rparr>, score = Fin 1\<rparr>"]
  have "X1 \<lparr>X1 = 90, Y1 = 90, X2 = 110, Y2 = 110\<rparr> \<le> X2 \<lparr>X1 = 90, Y1 = 90, X2 = 110, Y2 = 110\<rparr>"
    by (simp add: r clip_box_def)
  with c r show ?thesis by (simp only: simp_thms)
qed

text \<open>
  C3, as the claim states it, fails for a box that lies beside the image. At a 208 by
  416 image with ratio 1 (its letterbox has padding on the right) and a row centred at
  \<open>(300, 100)\<close> of size 20 by 20, the corners are \<open>(290, 90, 310, 110)\<close>; only \<open>x2\<close> is
  clipped, to 208, and the box is \<open>(290, 90, 208, 110)\<close> with \<open>x1 > x2\<close>.
\<close>

theorem clip_outside_counterexample:
  "collect_dets [[Fin 300, Fin 100, Fin 20, Fin 20, Fin 1, Fin 1]] (Fin 1) 208 416
     (Fin (13421773 / 134217728)) [] =
     Inr [\<lparr>box = \<lparr>X1 = 290, Y1 = 90, X2 = 208, Y2 = 110\<rparr>, score = Fin 1\<rparr>] \<and>
   \<not> X1 \<lparr>X1 = 290, Y1 = 90, X2 = 208, Y2 = 110\<rparr> \<le> X2 \<lparr>X1 = 290, Y1 = 90, X2 = 208, Y2 = 110\<rparr>"
  by (simp add: row_detection_def go_index_def max_class_score_def row_corners_def clip_box_def
      f32_to_int_def f32_eval)

subsection \<open>The order of the detections before suppression\<close>

lemma collect_dets_survivors:
  assumes "collect_dets predictions ratio origW origH scoreThr acc = Inr dets"
  shows "dets = acc @ survivors predictions ratio origW origH scoreThr"
  using assms
proof (induction predictions arbitrary: acc)
  case Nil
  then show ?case by (simp add: survivors_def)
next
  case (Cons pred preds)
  show ?case
  proof (cases "row_detection pred ratio origW origH scoreThr")
    case (Inl e)
    with Cons.prems show ?thesis by simp
  next
    case (Inr r)
    show ?thesis
    proof (cases r)
      case None
      with Inr have below: "f32_lt (det_score pred) scoreThr"
        by (auto simp: row_detection_def go_index_def det_score_def Let_def
            split: if_splits sum.splits)
      from None Inr Cons.prems have "collect_dets preds ratio origW origH scoreThr acc = Inr dets"
        by simp
      from Cons.IH [OF this] below show ?thesis by (simp add: survivors_def)
    next
      case (Some d)
      from row_detection_Some [OF Inr [unfolded Some]]
      have bs: "box d = clip_box (row_corners pred ratio) origW origH"
        "score d = det_score pred" "\<not> f32_lt (det_score pred) scoreThr"
        by (auto simp: det_score_def)
      then have above: "\<not> f32_lt (det_score pred) scoreThr" by simp
      from bs(1,2)
      have d: "d = \<lparr>box = clip_box (row_corners pred ratio) origW origH, score = det_score pred\<rparr>"
        by (cases d) simp
      from Some Inr Cons.prems
      have "collect_dets preds ratio origW origH scoreThr (acc @ [d]) = Inr dets"
        by simp
      from Cons.IH [OF this] d above show ?thesis by (simp add: survivors_def)
    qed
  qed
qed

lemma f32_gt_negtrans:
  "a \<noteq> NaN \<Longrightarrow> b \<noteq> NaN \<Longrightarrow> c \<noteq> NaN \<Longrightarrow> \<not> f32_gt a b \<Longrightarrow> \<not> f32_gt b c \<Longrightarrow> \<not> f32_gt a c"
  by (cases a; cases b; cases c) simp_all

lemma by_score_order:
  assumes "\<forall>d\<in>set dets. score d \<noteq> NaN"
  shows "strict_weak_order (set dets) by_score"
  unfolding strict_weak_order_def by_score_def
  using assms f32_gt_irrefl f32_gt_trans f32_gt_negtrans by blast




section \<open>Rounding of non-negative values\<close>

lemma rne_mono: "x \<le> y \<Longrightarrow> rne x \<le> rne y"
proof (cases "\<lfloor>x\<rfloor> = \<lfloor>y\<rfloor>")
  case True
  assume "x \<le> y"
  then have "x - of_int \<lfloor>y\<rfloor> \<le> y - of_int \<lfloor>y\<rfloor>" by simp
  then show ?thesis unfolding rne_def Let_def True by auto
next
  case False
  assume "x \<le> y"
  then have "\<lfloor>x\<rfloor> \<le> \<lfloor>y\<rfloor>" by (rule floor_mono)
  with False have "\<lfloor>x\<rfloor> + 1 \<le> \<lfloor>y\<rfloor>" by simp
  moreover have "\<lceil>x\<rceil> \<le> \<lfloor>x\<rfloor> + 1" by linarith
  ultimately show ?thesis using rne_bounds [of x] rne_bounds [of y] by linarith
qed

lemma rne_error: "\<bar>of_int (rne x) - x\<bar> \<le> 1 / 2"
proof -
  have "of_int \<lfloor>x\<rfloor> \<le> x" "x < of_int \<lfloor>x\<rfloor> + 1" by linarith+
  then show ?thesis unfolding rne_def Let_def by auto
qed

lemma rne_nonneg: "0 \<le> x \<Longrightarrow> 0 \<le> rne x"
  using rne_mono [of 0 x] rne_of_int [of 0] by simp

lemma rne_nonpos: "x \<le> 0 \<Longrightarrow> rne x \<le> 0"
  using rne_mono [of x 0] rne_of_int [of 0] by simp

lemma expo_eq:
  assumes "pow2 k \<le> \<bar>x\<bar>" "\<bar>x\<bar> < pow2 (k + 1)"
  shows "expo x = k"
proof -
  have "0 < \<bar>x\<bar>" using assms(1) pow2_pos [of k] by linarith
  then have x0: "x \<noteq> 0" by simp
  from expo_ge [OF x0 assms(1)] expo_less [OF x0 assms(2)] show ?thesis by simp
qed

lemma expo_mono:
  assumes "x \<noteq> 0" "\<bar>x\<bar> \<le> \<bar>y\<bar>"
  shows "expo x \<le> expo y"
proof -
  have y0: "y \<noteq> 0" using assms by auto
  have "pow2 (expo x) \<le> \<bar>y\<bar>" using expo_bounds(1) [OF assms(1)] assms(2) by linarith
  then show ?thesis by (rule expo_ge [OF y0])
qed

text \<open>The value that \<open>round32\<close> compares with \<open>2^128\<close>.\<close>

definition rounded :: "real \<Rightarrow> real" where
  "rounded x = of_int (rne (x / ulp32 x)) * ulp32 x"

lemma round32_rounded:
  "round32 x = (if x = 0 then Fin 0 else if pow2 128 \<le> \<bar>rounded x\<bar>
     then (if 0 < x then PInf else NInf) else Fin (rounded x))"
  by (simp add: round32_def rounded_def Let_def)

lemma ulp32_pos [simp]: "0 < ulp32 x"
  by (simp add: ulp32_def)

lemma ulp32_nonneg [simp]: "0 \<le> ulp32 x"
  by (simp add: ulp32_def)

lemma ulp32_neq0 [simp]: "ulp32 x \<noteq> 0"
  by (simp add: ulp32_def)

lemma rounded_error: "\<bar>rounded x - x\<bar> \<le> ulp32 x / 2"
proof -
  have "\<bar>of_int (rne (x / ulp32 x)) - x / ulp32 x\<bar> * ulp32 x \<le> 1 / 2 * ulp32 x"
    by (intro mult_right_mono rne_error) simp
  moreover have "\<bar>of_int (rne (x / ulp32 x)) - x / ulp32 x\<bar> * ulp32 x = \<bar>rounded x - x\<bar>"
  proof -
    have "(of_int (rne (x / ulp32 x)) - x / ulp32 x) * ulp32 x = rounded x - x"
      by (simp add: rounded_def algebra_simps)
    then have "\<bar>rounded x - x\<bar> = \<bar>of_int (rne (x / ulp32 x)) - x / ulp32 x\<bar> * \<bar>ulp32 x\<bar>"
      by (simp only: abs_mult [symmetric])
    then show ?thesis by simp
  qed
  ultimately show ?thesis by simp
qed

lemma ulp32_le:
  assumes "x \<noteq> 0"
  shows "ulp32 x \<le> \<bar>x\<bar> * pow2 (- 23) \<or> ulp32 x = pow2 (- 149)"
proof (cases "- 126 \<le> expo x")
  case True
  then have "ulp32 x = pow2 (expo x) * pow2 (- 23)"
    by (simp add: ulp32_def flip: pow2_add)
  also have "\<dots> \<le> \<bar>x\<bar> * pow2 (- 23)"
    using expo_bounds(1) [OF assms] by (intro mult_right_mono) simp_all
  finally show ?thesis by simp
next
  case False
  then show ?thesis by (simp add: ulp32_def max_def)
qed

lemma rounded_nonneg: "0 \<le> x \<Longrightarrow> 0 \<le> rounded x"
proof -
  assume "0 \<le> x"
  then have "0 \<le> x / ulp32 x" by simp
  then have "0 \<le> rne (x / ulp32 x)" by (rule rne_nonneg)
  then have "(0 :: real) \<le> of_int (rne (x / ulp32 x))" by simp
  then show ?thesis unfolding rounded_def by (intro mult_nonneg_nonneg) simp_all
qed

lemma rounded_nonpos: "x \<le> 0 \<Longrightarrow> rounded x \<le> 0"
proof -
  assume "x \<le> 0"
  then have "x / ulp32 x \<le> 0" by (simp add: divide_nonpos_pos)
  then have "rne (x / ulp32 x) \<le> 0" by (rule rne_nonpos)
  then have "(of_int (rne (x / ulp32 x)) :: real) \<le> 0" by simp
  then show ?thesis unfolding rounded_def by (simp add: mult_nonpos_nonneg)
qed

text \<open>The rounded value stays in the binade of a positive \<open>x\<close>.\<close>

lemma rounded_upper:
  assumes "0 < x"
  shows "rounded x \<le> pow2 (max (expo x) (- 126) + 1)"
proof -
  define e where "e = max (expo x) (- 126) - 23"
  have u: "ulp32 x = pow2 e" by (simp add: ulp32_def e_def)
  have "x < pow2 (expo x + 1)" using expo_bounds(2) [of x] assms by simp
  also have "\<dots> \<le> pow2 (24 + e)" by (simp add: e_def)
  also have "\<dots> = of_int (2 ^ 24) * pow2 e" by (simp only: pow2_add of_int_pow2) simp
  finally have "x / pow2 e \<le> of_int (2 ^ 24)" by (simp add: pos_divide_le_eq)
  then have "rne (x / pow2 e) \<le> 2 ^ 24" using rne_mono rne_of_int by metis
  then have "(of_int (rne (x / pow2 e)) :: real) \<le> of_int (2 ^ 24)" by (simp only: of_int_le_iff)
  then have "of_int (rne (x / pow2 e)) * pow2 e \<le> of_int (2 ^ 24) * pow2 e"
    by (intro mult_right_mono) simp_all
  also have "of_int (2 ^ 24) * pow2 e = pow2 (24 + e)" by (simp only: pow2_add of_int_pow2) simp
  also have "24 + e = max (expo x) (- 126) + 1" by (simp add: e_def)
  finally show ?thesis by (simp only: rounded_def u)
qed

lemma rounded_lower:
  assumes "0 < x" "- 126 \<le> expo x"
  shows "pow2 (expo x) \<le> rounded x"
proof -
  define e where "e = expo x - 23"
  have u: "ulp32 x = pow2 e" using assms(2) by (simp add: ulp32_def e_def)
  have "pow2 (23 + e) \<le> x" using expo_bounds(1) [of x] assms by (simp add: e_def)
  moreover have "pow2 (23 + e) = of_int (2 ^ 23) * pow2 e" by (simp only: pow2_add of_int_pow2) simp
  ultimately have "of_int (2 ^ 23) \<le> x / pow2 e" by (simp add: pos_le_divide_eq)
  then have "2 ^ 23 \<le> rne (x / pow2 e)" using rne_mono rne_of_int by metis
  then have "(of_int (2 ^ 23) :: real) \<le> of_int (rne (x / pow2 e))" by (simp only: of_int_le_iff)
  then have le: "of_int (2 ^ 23) * pow2 e \<le> of_int (rne (x / pow2 e)) * pow2 e"
    by (intro mult_right_mono) simp_all
  have "expo x = 23 + e" by (simp add: e_def)
  then have "pow2 (expo x) = pow2 (23 + e)" by simp
  also have "\<dots> = of_int (2 ^ 23) * pow2 e" by (simp only: pow2_add of_int_pow2) simp
  also note le
  finally show ?thesis by (simp only: rounded_def u)
qed

lemma rounded_mono:
  assumes "0 < x" "x \<le> y"
  shows "rounded x \<le> rounded y"
proof (cases "max (expo x) (- 126) = max (expo y) (- 126)")
  case True
  then have u: "ulp32 x = ulp32 y" by (simp add: ulp32_def)
  have "x / ulp32 y \<le> y / ulp32 y" using assms(2) by (simp add: divide_right_mono)
  then have "rne (x / ulp32 y) \<le> rne (y / ulp32 y)" by (rule rne_mono)
  then have "(of_int (rne (x / ulp32 y)) :: real) \<le> of_int (rne (y / ulp32 y))"
    by (simp only: of_int_le_iff)
  then show ?thesis unfolding rounded_def u by (intro mult_right_mono) simp_all
next
  case False
  have y0: "0 < y" using assms by simp
  have "expo x \<le> expo y" using assms by (intro expo_mono) auto
  with False have lt: "max (expo x) (- 126) < expo y" and ge: "- 126 \<le> expo y"
    by (auto simp: max_def split: if_splits)
  have "rounded x \<le> pow2 (max (expo x) (- 126) + 1)" by (rule rounded_upper [OF assms(1)])
  also have "\<dots> \<le> pow2 (expo y)" using lt by (simp only: pow2_le_iff)
  also have "\<dots> \<le> rounded y" by (rule rounded_lower [OF y0 ge])
  finally show ?thesis .
qed

lemma round32_mono:
  assumes "0 \<le> x" "x \<le> y" "round32 x = Fin r" "round32 y = Fin s"
  shows "r \<le> s"
proof (cases "x = 0")
  case True
  with assms(3) have "r = 0" by simp
  moreover have "0 \<le> s"
    using assms(1,2,4) rounded_nonneg [of y]
    by (auto simp: round32_rounded split: if_splits)
  ultimately show ?thesis by simp
next
  case False
  with assms have x: "0 < x" and y: "y \<noteq> 0" by auto
  from assms(3) False have "r = rounded x" by (auto simp: round32_rounded split: if_splits)
  moreover from assms(4) y have "s = rounded y" by (auto simp: round32_rounded split: if_splits)
  ultimately show ?thesis using rounded_mono [OF x assms(2)] by simp
qed

lemma round32_finite:
  assumes "0 \<le> x" "x < pow2 127"
  shows "\<exists>r. round32 x = Fin r \<and> 0 \<le> r"
proof (cases "x = 0")
  case True
  then show ?thesis by simp
next
  case False
  with assms have x: "0 < x" by simp
  have "expo x < 127" using assms(2) x by (intro expo_less) auto
  then have "max (expo x) (- 126) + 1 \<le> 127" by simp
  then have "pow2 (max (expo x) (- 126) + 1) \<le> pow2 127" by (simp only: pow2_le_iff)
  with rounded_upper [OF x] have "rounded x \<le> pow2 127" by linarith
  moreover have "pow2 127 < pow2 128" by simp
  ultimately have "\<not> pow2 128 \<le> \<bar>rounded x\<bar>" using rounded_nonneg [of x] x by linarith
  with False rounded_nonneg [of x] x show ?thesis by (auto simp: round32_rounded)
qed

text \<open>A value between two numbers of the format is rounded to a number between them.\<close>

lemma round32_between:
  assumes "0 \<le> a" "a \<le> x" "x \<le> b" "representable a" "representable b" "b < pow2 127"
  shows "\<exists>r. round32 x = Fin r \<and> a \<le> r \<and> r \<le> b"
proof -
  have "0 \<le> x" "x < pow2 127" using assms by auto
  from round32_finite [OF this] obtain r where r: "round32 x = Fin r" by blast
  have "a \<le> r"
    using round32_mono [OF assms(1,2) round32_exact [OF assms(4)] r] .
  moreover have "r \<le> b"
    using round32_mono [OF \<open>0 \<le> x\<close> assms(3) r round32_exact [OF assms(5)]] .
  ultimately show ?thesis using r by blast
qed

lemma round32_error:
  assumes "round32 x = Fin r"
  shows "\<bar>r - x\<bar> \<le> \<bar>x\<bar> * pow2 (- 24) + pow2 (- 150)"
proof (cases "x = 0")
  case True
  with assms show ?thesis by simp
next
  case False
  with assms have r: "r = rounded x" by (auto simp: round32_rounded split: if_splits)
  have h: "pow2 (- 23) / 2 = pow2 (- 24)" "pow2 (- 149) / 2 = pow2 (- 150)"
    using pow2_Suc [of "- 24"] pow2_Suc [of "- 150"] by simp_all
  from ulp32_le [OF False] have "ulp32 x / 2 \<le> \<bar>x\<bar> * pow2 (- 24) + pow2 (- 150)"
  proof
    assume "ulp32 x \<le> \<bar>x\<bar> * pow2 (- 23)"
    then have "ulp32 x / 2 \<le> \<bar>x\<bar> * (pow2 (- 23) / 2)" by simp
    then show ?thesis unfolding h using pow2_nonneg [of "- 150"] by linarith
  next
    assume "ulp32 x = pow2 (- 149)"
    then have "ulp32 x / 2 = pow2 (- 150)" by (simp add: h)
    moreover have "0 \<le> \<bar>x\<bar> * pow2 (- 24)" by simp
    ultimately show ?thesis by linarith
  qed
  with rounded_error [of x] show ?thesis unfolding r by linarith
qed

subsection \<open>Values that round to 1\<close>

lemma rne_near:
  "\<bar>x - of_int z\<bar> < 1 / 2 \<Longrightarrow> rne x = z"
proof -
  assume a: "\<bar>x - of_int z\<bar> < 1 / 2"
  show ?thesis
  proof (cases "of_int z \<le> x")
    case True
    with a have "\<lfloor>x\<rfloor> = z" by (intro floor_unique) linarith+
    with a True show ?thesis by (simp add: rne_def Let_def)
  next
    case False
    with a have f: "\<lfloor>x\<rfloor> = z - 1" by (intro floor_unique; simp; linarith)
    have "1 / 2 < x - of_int (z - 1)" using a False by (simp; linarith)
    with f show ?thesis by (simp add: rne_def Let_def)
  qed
qed

lemma pow2_23: "pow2 23 = 8388608"
  using pow2_nat [of 23] by simp

lemma pow2_24: "pow2 24 = 16777216"
  using pow2_nat [of 24] by simp

lemma rne_tie_even:
  assumes "x = of_int z + 1 / 2" "even z"
  shows "rne x = z"
proof -
  have "\<lfloor>x\<rfloor> = z" unfolding assms(1) by (intro floor_unique) simp_all
  with assms show ?thesis by (simp add: rne_def Let_def)
qed

lemma round32_binade:
  assumes "pow2 k \<le> x" "x < pow2 (k + 1)" "- 126 \<le> k" "k \<le> 126"
    and "rne (x / pow2 (k - 23)) = m"
  shows "round32 x = Fin (of_int m * pow2 (k - 23))"
proof -
  have x: "0 < x" using assms(1) pow2_pos [of k] by linarith
  have e: "expo x = k" using assms(1,2) x by (intro expo_eq) simp_all
  have u: "ulp32 x = pow2 (k - 23)" using assms(3) by (simp add: ulp32_def e)
  have r: "rounded x = of_int m * pow2 (k - 23)" by (simp add: rounded_def u assms(5))
  have "rounded x \<le> pow2 (k + 1)" using rounded_upper [OF x] assms(3) by (simp add: e)
  moreover have "pow2 (k + 1) < pow2 128" using assms(4) by simp
  ultimately have "\<not> pow2 128 \<le> \<bar>rounded x\<bar>" using rounded_nonneg [of x] x by linarith
  with x r show ?thesis by (simp add: round32_rounded)
qed

lemma round32_near_one:
  assumes "1 - pow2 (- 25) < y" "y \<le> 1 + pow2 (- 24)"
  shows "round32 y = Fin 1"
proof (cases "1 \<le> y")
  case True
  have p: "pow2 (- 24) * pow2 23 = 1 / 2" "pow2 (- 23) * pow2 23 = 1"
    using pow2_Suc [of "- 1"] by (simp_all flip: pow2_add)
  have q: "y / pow2 (- 23) = y * pow2 23"
    using p(2) by (simp add: field_simps)
  have "pow2 (- 24) < 1" using pow2_less_iff [of "- 24" 0] by simp
  then have lt2: "y < pow2 (0 + 1)" using assms(2) by simp
  have rn: "rne (y / pow2 (0 - 23)) = 2 ^ 23"
  proof (cases "y = 1 + pow2 (- 24)")
    case True
    have "y * pow2 23 = pow2 23 + 1 / 2" unfolding True using p by (simp add: algebra_simps)
    then have "y / pow2 (- 23) = of_int (2 ^ 23) + 1 / 2" unfolding q by (simp add: pow2_23 pow2_24)
    then show ?thesis using rne_tie_even [of "y / pow2 (- 23)" "2 ^ 23"] by simp
  next
    case False
    with assms(2) have "y - 1 < pow2 (- 24)" by simp
    then have "(y - 1) * pow2 23 < pow2 (- 24) * pow2 23"
      by (intro mult_strict_right_mono) simp_all
    then have "y * pow2 23 - pow2 23 < 1 / 2" unfolding p by (simp add: algebra_simps)
    moreover have "pow2 23 \<le> y * pow2 23" using True by simp
    ultimately have "\<bar>y / pow2 (- 23) - of_int (2 ^ 23)\<bar> < 1 / 2"
      unfolding q by (simp add: pow2_23 pow2_24)
    then show ?thesis using rne_near by simp
  qed
  have "round32 y = Fin (of_int (2 ^ 23) * pow2 (0 - 23))"
    using True lt2 rn by (intro round32_binade) simp_all
  moreover have "of_int (2 ^ 23) * pow2 (0 - 23) = (1 :: real)"
    using p(2) by (simp add: pow2_23 pow2_24 mult.commute)
  ultimately show ?thesis by simp
next
  case False
  have p: "pow2 (- 25) * pow2 24 = 1 / 2" "pow2 (- 24) * pow2 24 = 1"
    using pow2_Suc [of "- 1"] by (simp_all flip: pow2_add)
  have q: "y / pow2 (- 24) = y * pow2 24"
    using p(2) by (simp add: field_simps)
  have "pow2 (- 25) \<le> pow2 (- 1)" by simp
  moreover have "pow2 (- 1) = 1 / 2" using pow2_Suc [of "- 1"] by simp
  ultimately have ge: "pow2 (- 1) \<le> y" using assms(1) by linarith
  have lt2: "y < pow2 (- 1 + 1)" using False by simp
  have "(1 - y) * pow2 24 < pow2 (- 25) * pow2 24"
    using assms(1) by (intro mult_strict_right_mono) simp_all
  then have "pow2 24 - y * pow2 24 < 1 / 2" unfolding p by (simp add: algebra_simps)
  moreover have "y * pow2 24 < pow2 24" using False by simp
  ultimately have "\<bar>y / pow2 (- 24) - of_int (2 ^ 24)\<bar> < 1 / 2"
    unfolding q by (simp add: pow2_23 pow2_24)
  then have rn: "rne (y / pow2 (- 1 - 23)) = 2 ^ 24" using rne_near by simp
  have "round32 y = Fin (of_int (2 ^ 24) * pow2 (- 1 - 23))"
    using ge lt2 rn by (intro round32_binade) simp_all
  moreover have "of_int (2 ^ 24) * pow2 (- 1 - 23) = (1 :: real)"
    using p(2) by (simp add: pow2_23 pow2_24 mult.commute)
  ultimately show ?thesis by simp
qed

lemma round32_sum_cap: "round32 (pow2 24 + 1) = Fin (pow2 24)"
proof -
  have p: "pow2 24 / pow2 1 = pow2 23"
    using pow2_add [of 23 1] by simp
  have "(pow2 24 + 1) / pow2 (24 - 23) = of_int (2 ^ 23) + 1 / 2"
    using p by (simp add: add_divide_distrib pow2_23 pow2_24)
  then have rn: "rne ((pow2 24 + 1) / pow2 (24 - 23)) = 2 ^ 23"
    using rne_tie_even [of _ "2 ^ 23"] by simp
  have "(1 :: real) < pow2 24" using pow2_less_iff [of 0 24] by simp
  then have "pow2 24 + 1 < pow2 24 + pow2 24" by simp
  also have "\<dots> = pow2 (24 + 1)" using pow2_Suc [of 24] by simp
  finally have lt2: "pow2 24 + 1 < pow2 (24 + 1)" .
  have "round32 (pow2 24 + 1) = Fin (of_int (2 ^ 23) * pow2 (24 - 23))"
    using lt2 rn by (intro round32_binade) simp_all
  moreover have "of_int (2 ^ 23) * pow2 (24 - 23) = pow2 24"
    using pow2_add [of 23 1] by (simp add: pow2_23 pow2_24)
  ultimately show ?thesis by simp
qed

lemma round32_nonpos:
  assumes "x \<le> 0"
  shows "round32 x = NInf \<or> (\<exists>d\<le>0. round32 x = Fin d)"
  using assms rounded_nonpos [of x] by (auto simp: round32_rounded)

lemma round32_unit:
  assumes "0 \<le> y" "y \<le> 1 + pow2 (- 24)"
  shows "\<exists>r. round32 y = Fin r \<and> 0 \<le> r \<and> r \<le> 1"
proof (cases "y \<le> 1")
  case True
  have "representable 0" "representable 1"
    using representable_int [of 0] representable_int [of 1] by simp_all
  moreover have "(1 :: real) < pow2 127" using pow2_less_iff [of 0 127] by simp
  ultimately show ?thesis using round32_between [of 0 y 1] assms(1) True by simp
next
  case False
  have "pow2 (- 25) > 0" by simp
  then have "1 - pow2 (- 25) < y" using False by linarith
  from round32_near_one [OF this assms(2)] show ?thesis by simp
qed

section \<open>Properties of softmax\<close>

subsection \<open>The row before the division\<close>

lemma max_loop_Fin: "max_loop (map Fin xs) (Fin m) = Fin (foldl max m xs)"
  by (induction xs arbitrary: m) (auto simp: max_def)

lemma foldl_max_props:
  fixes m :: real
  shows "m \<le> foldl max m xs \<and> (\<forall>x\<in>set xs. x \<le> foldl max m xs) \<and>
         foldl max m xs \<in> insert m (set xs)"
proof (induction xs arbitrary: m)
  case Nil
  show ?case by simp
next
  case (Cons x xs)
  from Cons [of "max m x"] show ?case by (auto simp: max_def split: if_splits)
qed

text \<open>One entry of \<open>output\<close> before the division.\<close>

definition exp_entry :: "(f64 \<Rightarrow> f64) \<Rightarrow> f32 \<Rightarrow> f32 \<Rightarrow> f32" where
  "exp_entry math_Exp maxVal v = f32_of_f64 (math_Exp (f64_of_f32 (f32_sub v maxVal)))"

lemma exp_loop_map:
  "exp_loop math_Exp maxVal vs out sumv =
     (out @ map (exp_entry math_Exp maxVal) vs,
      foldl f32_add sumv (map (exp_entry math_Exp maxVal) vs))"
  by (induction vs arbitrary: out sumv) (simp_all add: exp_entry_def Let_def)

lemma pow2_small:
  "pow2 (- 52) + pow2 (- 1074) < pow2 (- 51)"
proof -
  have "pow2 (- 1074) < pow2 (- 52)" by simp
  moreover have "pow2 (- 51) = 2 * pow2 (- 52)" using pow2_Suc [of "- 52"] by simp
  ultimately show ?thesis by linarith
qed

lemma exp_accurate_unit:
  assumes "exp_accurate math_Exp" "d \<le> 0"
  shows "\<exists>y. math_Exp (Fin d) = Fin y \<and> 0 \<le> y \<and> y \<le> 1 + pow2 (- 24) \<and>
             \<bar>y - exp d\<bar> < pow2 (- 51)"
proof -
  from assms obtain y where y: "math_Exp (Fin d) = Fin y" "0 \<le> y"
    "\<bar>y - exp d\<bar> \<le> exp d * pow2 (- 52) + pow2 (- 1074)"
    unfolding exp_accurate_def by blast
  have e: "exp d \<le> 1" "0 < exp d" using assms(2) by simp_all
  then have "exp d * pow2 (- 52) \<le> 1 * pow2 (- 52)" by (intro mult_right_mono) simp_all
  with y(3) pow2_small have c: "\<bar>y - exp d\<bar> < pow2 (- 51)" by linarith
  have "pow2 (- 51) \<le> pow2 (- 24)" by simp
  with c e have "y \<le> 1 + pow2 (- 24)" by linarith
  with y c show ?thesis by blast
qed

lemma exp_entry_unit:
  assumes "exp_accurate math_Exp" "x \<le> m"
  shows "\<exists>r. exp_entry math_Exp (Fin m) (Fin x) = Fin r \<and> 0 \<le> r \<and> r \<le> 1"
proof -
  have s: "f32_sub (Fin x) (Fin m) = round32 (x - m)" by (simp add: f32_sub_def)
  have "x - m \<le> 0" using assms(2) by simp
  from round32_nonpos [OF this] show ?thesis
  proof
    assume "round32 (x - m) = NInf"
    moreover have "math_Exp NInf = Fin 0" using assms(1) by (simp add: exp_accurate_def)
    ultimately show ?thesis by (simp add: exp_entry_def s f64_of_f32_def)
  next
    assume "\<exists>d\<le>0. round32 (x - m) = Fin d"
    then obtain d where d: "d \<le> 0" "round32 (x - m) = Fin d" by blast
    from exp_accurate_unit [OF assms(1) d(1)] obtain y where
      y: "math_Exp (Fin d) = Fin y" "0 \<le> y" "y \<le> 1 + pow2 (- 24)" by blast
    from round32_unit [OF y(2,3)] show ?thesis
      by (simp add: exp_entry_def s d(2) f64_of_f32_def y(1))
  qed
qed

lemma exp_entry_max:
  assumes "exp_accurate math_Exp"
  shows "exp_entry math_Exp (Fin m) (Fin m) = Fin 1"
proof -
  have s: "f32_sub (Fin m) (Fin m) = Fin 0" by (simp add: f32_sub_def)
  from exp_accurate_unit [OF assms, of 0] obtain y where
    y: "math_Exp (Fin 0) = Fin y" "y \<le> 1 + pow2 (- 24)" "\<bar>y - 1\<bar> < pow2 (- 51)" by auto
  have "pow2 (- 51) \<le> pow2 (- 25)" by simp
  with y(3) have "1 - pow2 (- 25) < y" by linarith
  from round32_near_one [OF this y(2)] show ?thesis
    by (simp add: exp_entry_def s f64_of_f32_def y(1))
qed

lemma sum_loop:
  assumes "\<forall>r\<in>set rs. 0 \<le> r \<and> r \<le> 1" "0 \<le> s0" "s0 \<le> pow2 24"
  shows "\<exists>s. foldl f32_add (Fin s0) (map Fin rs) = Fin s \<and> 0 \<le> s \<and> s \<le> pow2 24 \<and>
           (1 \<le> s0 \<or> 1 \<in> set rs \<longrightarrow> 1 \<le> s)"
  using assms
proof (induction rs arbitrary: s0)
  case Nil
  then show ?case by simp
next
  case (Cons r rs)
  from Cons.prems have r: "0 \<le> r" "r \<le> 1" by simp_all
  have lo: "0 \<le> s0 + r" using r Cons.prems(2) by simp
  have hi: "s0 + r \<le> pow2 24 + 1" using r Cons.prems(3) by simp
  have "pow2 24 + 1 < pow2 24 + pow2 24" using pow2_less_iff [of 0 24] by simp
  also have "\<dots> = pow2 25" using pow2_Suc [of 24] by simp
  also have "\<dots> < pow2 127" by simp
  finally have "s0 + r < pow2 127" using hi by linarith
  from round32_finite [OF lo this] obtain s1 where s1: "round32 (s0 + r) = Fin s1" "0 \<le> s1"
    by blast
  have cap: "s1 \<le> pow2 24"
    using round32_mono [OF lo hi s1(1) round32_sum_cap] .
  have one: "1 \<le> s1" if "1 \<le> s0 \<or> r = 1"
  proof -
    from that r Cons.prems(2) have "1 \<le> s0 + r" by auto
    from round32_mono [OF _ this round32_1 s1(1)] show ?thesis by simp
  qed
  from Cons.prems(1) have "\<forall>r\<in>set rs. 0 \<le> r \<and> r \<le> 1" by simp
  from Cons.IH [OF this s1(2) cap] obtain s where
    s: "foldl f32_add (Fin s1) (map Fin rs) = Fin s" "0 \<le> s" "s \<le> pow2 24"
      "1 \<le> s1 \<or> 1 \<in> set rs \<longrightarrow> 1 \<le> s" by blast
  have "foldl f32_add (Fin s0) (map Fin (r # rs)) = Fin s" by (simp add: s1(1) s(1))
  moreover have "1 \<le> s0 \<or> 1 \<in> set (r # rs) \<longrightarrow> 1 \<le> s" using s(4) one by auto
  ultimately show ?case using s(2,3) by blast
qed

lemma div_unit:
  assumes "0 \<le> r" "r \<le> 1" "1 \<le> s"
  shows "\<exists>q. f32_div (Fin r) (Fin s) = Fin q \<and> 0 \<le> q \<and> q \<le> 1 \<and> round32 (r / s) = Fin q"
proof -
  have "0 \<le> r / s" using assms by simp
  moreover have "r / s \<le> 1" using assms by (simp add: divide_le_eq)
  then have "r / s \<le> 1 + pow2 (- 24)" using pow2_nonneg [of "- 24"] by linarith
  ultimately obtain q where "round32 (r / s) = Fin q" "0 \<le> q" "q \<le> 1"
    using round32_unit by blast
  then show ?thesis using assms(3) by simp
qed

text \<open>The row after the loops and before the division, for a row of finite scores.\<close>

lemma softmax_finite:
  assumes "exp_accurate math_Exp" "xs \<noteq> []"
  shows "\<exists>rs s. softmax math_Exp (map Fin xs) = Inr (map (\<lambda>r. f32_div (Fin r) (Fin s)) rs) \<and>
           length rs = length xs \<and>
           (\<forall>i<length xs. 0 \<le> rs ! i \<and> rs ! i \<le> 1 \<and> (xs ! i = Max (set xs) \<longrightarrow> rs ! i = 1)) \<and>
           foldl f32_add (Fin 0) (map Fin rs) = Fin s \<and> 1 \<le> s \<and> s \<le> pow2 24"
proof -
  obtain x0 xt where xs: "xs = x0 # xt" using assms(2) by (cases xs) auto
  define m where "m = foldl max x0 xt"
  have m: "\<forall>x\<in>set xs. x \<le> m" "m \<in> set xs"
    using foldl_max_props [of x0 xt] by (auto simp: xs m_def)
  have mx: "m = Max (set xs)"
    using m by (intro Max_eqI [symmetric]) auto
  define rs where "rs = map (\<lambda>x. f32_real (exp_entry math_Exp (Fin m) (Fin x))) xs"
  have e: "exp_entry math_Exp (Fin m) (Fin x) = Fin (f32_real (exp_entry math_Exp (Fin m) (Fin x)))"
    and u: "0 \<le> f32_real (exp_entry math_Exp (Fin m) (Fin x))"
      "f32_real (exp_entry math_Exp (Fin m) (Fin x)) \<le> 1"
    if "x \<in> set xs" for x
    using exp_entry_unit [OF assms(1), of x m] m(1) that by auto
  have em: "map (exp_entry math_Exp (Fin m)) (map Fin xs) = map Fin rs"
    using e by (simp add: rs_def)
  have unit: "\<forall>r\<in>set rs. 0 \<le> r \<and> r \<le> 1" using u by (auto simp: rs_def)
  have top: "rs ! i = 1" if "i < length xs" "xs ! i = m" for i
    using that exp_entry_max [OF assms(1), of m] by (simp add: rs_def)
  obtain a where a: "a < length xs" "xs ! a = m" using m(2) by (auto simp: in_set_conv_nth)
  then have "rs ! a = 1" by (rule top)
  moreover have "a < length rs" using a by (simp add: rs_def)
  ultimately have "1 \<in> set rs" by (metis nth_mem)
  with sum_loop [OF unit, of 0] obtain s where
    s: "foldl f32_add (Fin 0) (map Fin rs) = Fin s" "1 \<le> s" "s \<le> pow2 24" by auto
  have g: "go_index (map Fin xs) 0 = Inr (Fin x0)" by (simp add: go_index_def xs)
  have ml: "max_loop (drop 1 (map Fin xs)) (Fin x0) = Fin m"
    by (simp add: xs max_loop_Fin m_def)
  have "softmax math_Exp (map Fin xs) = Inr (map (\<lambda>x. f32_div x (Fin s)) (map Fin rs))"
    unfolding softmax_def g by (simp only: sum.case Let_def ml exp_loop_map em s(1) prod.case append_Nil)
  then have "softmax math_Exp (map Fin xs) = Inr (map (\<lambda>r. f32_div (Fin r) (Fin s)) rs)"
    by (simp add: comp_def)
  moreover have "\<forall>i<length xs. 0 \<le> rs ! i \<and> rs ! i \<le> 1 \<and> (xs ! i = Max (set xs) \<longrightarrow> rs ! i = 1)"
    using unit top by (auto simp: mx rs_def)
  moreover have "length rs = length xs" by (simp add: rs_def)
  ultimately show ?thesis using s by blast
qed

lemma arg_max_index_Fin:
  assumes "xs \<noteq> []"
  shows "arg_max_index (map Fin xs) < length xs \<and> xs ! arg_max_index (map Fin xs) = Max (set xs)"
proof -
  let ?P = "\<lambda>i. list_all (\<lambda>v. \<not> f32_gt v (map Fin xs ! i)) (map Fin xs)"
  have P: "?P i \<longleftrightarrow> xs ! i = Max (set xs)" if "i < length xs" for i
  proof -
    have "?P i \<longleftrightarrow> (\<forall>x\<in>set xs. x \<le> xs ! i)"
      using that by (auto simp: list_all_iff not_less)
    also have "\<dots> \<longleftrightarrow> xs ! i = Max (set xs)"
      using that assms by (auto intro!: Max_eqI [symmetric] simp: Max_ge_iff)
    finally show ?thesis .
  qed
  have "Max (set xs) \<in> set xs" using assms by (intro Max_in) auto
  then obtain a where a: "a < length xs" "xs ! a = Max (set xs)" by (auto simp: in_set_conv_nth)
  then have "\<exists>i\<in>set [0..<length xs]. ?P i" using P by auto
  then obtain k where k: "find ?P [0..<length (map Fin xs)] = Some k"
    by (cases "find ?P [0..<length (map Fin xs)]") (auto simp: find_None_iff)
  then have "k < length xs" "?P k" by (auto simp: find_Some_iff)
  with P k show ?thesis by (simp add: arg_max_index_def)
qed

subsection \<open>The rounding error of the sum\<close>

lemma sum_loop_error:
  assumes "\<forall>r\<in>set rs. 0 \<le> r \<and> r \<le> 1" "0 \<le> s0" "s0 \<le> pow2 24"
    and "foldl f32_add (Fin s0) (map Fin rs) = Fin s"
  shows "(1 - pow2 (- 24)) ^ length rs * (s0 + sum_list rs) - real (length rs) * pow2 (- 150) \<le> s \<and>
         s \<le> (1 + pow2 (- 24)) ^ length rs * (s0 + sum_list rs + real (length rs) * pow2 (- 150))"
  using assms
proof (induction rs arbitrary: s0)
  case Nil
  then show ?case by simp
next
  case (Cons r rs)
  define u where "u = pow2 (- 24)"
  define h where "h = pow2 (- 150)"
  define k where "k = length rs"
  define T where "T = sum_list rs"
  have u: "0 \<le> u" "u \<le> 1" and h: "0 \<le> h"
    using pow2_le_iff [of "- 24" 0] by (simp_all add: u_def h_def)
  from Cons.prems have r: "0 \<le> r" "r \<le> 1" and rs: "\<forall>r\<in>set rs. 0 \<le> r \<and> r \<le> 1" by simp_all
  have T: "0 \<le> T" unfolding T_def using rs by (intro sum_list_nonneg) simp
  have lo: "0 \<le> s0 + r" using r Cons.prems(2) by simp
  have hi: "s0 + r \<le> pow2 24 + 1" using r Cons.prems(3) by simp
  have "pow2 24 + 1 < pow2 24 + pow2 24" using pow2_less_iff [of 0 24] by simp
  also have "\<dots> = pow2 25" using pow2_Suc [of 24] by simp
  also have "\<dots> < pow2 127" by simp
  finally have "s0 + r < pow2 127" using hi by linarith
  from round32_finite [OF lo this] obtain s1 where s1: "round32 (s0 + r) = Fin s1" "0 \<le> s1"
    by blast
  have cap: "s1 \<le> pow2 24"
    using round32_mono [OF lo hi s1(1) round32_sum_cap] .
  from round32_error [OF s1(1)] lo have err: "\<bar>s1 - (s0 + r)\<bar> \<le> (s0 + r) * u + h"
    by (simp add: u_def h_def)
  from Cons.prems(4) have "foldl f32_add (Fin s1) (map Fin rs) = Fin s" by (simp add: s1(1))
  from Cons.IH [OF rs s1(2) cap this]
  have IH: "(1 - u) ^ k * (s1 + T) - real k * h \<le> s" "s \<le> (1 + u) ^ k * (s1 + T + real k * h)"
    by (simp_all add: u_def h_def k_def T_def)
  have A: "0 \<le> (1 - u) ^ k" "(1 - u) ^ k \<le> 1"
    using u by (simp_all add: power_le_one)
  have B: "0 \<le> (1 + u) ^ k" using u by simp
  have uT: "0 \<le> u * T" "0 \<le> u * (real k * h)" "0 \<le> u * h" using u T h by simp_all
  have "(1 - u) * (s0 + r + T) = (s0 + r) - (s0 + r) * u + T - u * T" by (simp add: algebra_simps)
  also have "\<dots> \<le> s1 + T + h" using err uT by linarith
  finally have "(1 - u) ^ k * ((1 - u) * (s0 + r + T)) \<le> (1 - u) ^ k * (s1 + T + h)"
    using A(1) by (rule mult_left_mono)
  also have "\<dots> = (1 - u) ^ k * (s1 + T) + (1 - u) ^ k * h" by (simp add: algebra_simps)
  also have "\<dots> \<le> (1 - u) ^ k * (s1 + T) + h"
    using mult_left_le_one_le [OF h A(1) A(2)] by (simp add: mult.commute)
  finally have lower: "(1 - u) ^ Suc k * (s0 + r + T) - real (Suc k) * h \<le> s"
    using IH(1) by (simp add: algebra_simps)
  have "s1 + T + real k * h \<le> (s0 + r) + (s0 + r) * u + h + T + real k * h" using err by linarith
  also have "\<dots> \<le> (1 + u) * (s0 + r + T + real (Suc k) * h)"
    using uT by (simp add: algebra_simps)
  finally have "(1 + u) ^ k * (s1 + T + real k * h) \<le>
      (1 + u) ^ k * ((1 + u) * (s0 + r + T + real (Suc k) * h))"
    using B by (rule mult_left_mono)
  with IH(2) have upper: "s \<le> (1 + u) ^ Suc k * (s0 + r + T + real (Suc k) * h)"
    by (simp add: algebra_simps)
  from lower upper show ?case
    by (simp add: u_def h_def k_def T_def algebra_simps)
qed

lemma out_sum_error:
  assumes "\<forall>r\<in>set rs. 0 \<le> r \<and> r \<le> 1" "1 \<le> s"
  shows "\<exists>qs. map (\<lambda>r. f32_div (Fin r) (Fin s)) rs = map Fin qs \<and> length qs = length rs \<and>
           (\<forall>i<length rs. 0 \<le> qs ! i \<and> qs ! i \<le> 1 \<and> round32 (rs ! i / s) = Fin (qs ! i)) \<and>
           (1 - pow2 (- 24)) * (sum_list rs / s) - real (length rs) * pow2 (- 150) \<le> sum_list qs \<and>
           sum_list qs \<le> (1 + pow2 (- 24)) * (sum_list rs / s) + real (length rs) * pow2 (- 150)"
  using assms(1)
proof (induction rs)
  case Nil
  show ?case by simp
next
  case (Cons r rs)
  define u where "u = pow2 (- 24)"
  define h where "h = pow2 (- 150)"
  from Cons.prems have r: "0 \<le> r" "r \<le> 1" and rs: "\<forall>r\<in>set rs. 0 \<le> r \<and> r \<le> 1" by simp_all
  from Cons.IH [OF rs] obtain qs where
    qs: "map (\<lambda>r. f32_div (Fin r) (Fin s)) rs = map Fin qs" "length qs = length rs"
      "\<forall>i<length rs. 0 \<le> qs ! i \<and> qs ! i \<le> 1 \<and> round32 (rs ! i / s) = Fin (qs ! i)"
      "(1 - u) * (sum_list rs / s) - real (length rs) * h \<le> sum_list qs"
      "sum_list qs \<le> (1 + u) * (sum_list rs / s) + real (length rs) * h"
    unfolding u_def h_def by blast
  from div_unit [OF r assms(2)] obtain q where
    q: "f32_div (Fin r) (Fin s) = Fin q" "0 \<le> q" "q \<le> 1" "round32 (r / s) = Fin q" by blast
  have "0 \<le> r / s" using r assms(2) by simp
  then have ab: "\<bar>r / s\<bar> = r / s" by (rule abs_of_nonneg)
  from round32_error [OF q(4)] have err: "\<bar>q - r / s\<bar> \<le> r / s * u + h"
    by (simp only: ab u_def h_def)
  have e: "sum_list (r # rs) / s = r / s + sum_list rs / s" by (simp add: add_divide_distrib)
  have 1: "map (\<lambda>r. f32_div (Fin r) (Fin s)) (r # rs) = map Fin (q # qs)"
    using q(1) qs(1) by simp
  have 2: "length (q # qs) = length (r # rs)" using qs(2) by simp
  have 3: "\<forall>i<length (r # rs). 0 \<le> (q # qs) ! i \<and> (q # qs) ! i \<le> 1 \<and>
      round32 ((r # rs) ! i / s) = Fin ((q # qs) ! i)"
    using q qs(3) by (auto simp: nth_Cons split: nat.splits)
  define a where "a = r / s"
  define b where "b = sum_list rs / s"
  define k where "k = length rs"
  have x1: "(1 - u) * (a + b) = (a - a * u) + (1 - u) * b"
    and x2: "(1 + u) * (a + b) = (a + a * u) + (1 + u) * b"
    and x3: "real (Suc k) * h = real k * h + h"
    by (simp_all add: algebra_simps)
  from err have err': "\<bar>q - a\<bar> \<le> a * u + h" by (simp only: a_def)
  from qs(4,5) have q45: "(1 - u) * b - real k * h \<le> sum_list qs"
    "sum_list qs \<le> (1 + u) * b + real k * h"
    by (simp_all only: b_def k_def)
  have "(1 - u) * (a + b) - real (Suc k) * h \<le> q + sum_list qs"
    unfolding x1 x3 using err' q45(1) by linarith
  then have 4: "(1 - u) * (sum_list (r # rs) / s) - real (length (r # rs)) * h \<le> sum_list (q # qs)"
    unfolding e by (simp only: a_def b_def k_def list.size sum_list.Cons) simp
  have "q + sum_list qs \<le> (1 + u) * (a + b) + real (Suc k) * h"
    unfolding x2 x3 using err' q45(2) by linarith
  then have 5: "sum_list (q # qs) \<le> (1 + u) * (sum_list (r # rs) / s) + real (length (r # rs)) * h"
    unfolding e by (simp only: a_def b_def k_def list.size sum_list.Cons) simp
  from 1 2 3 4 5 show ?case unfolding u_def h_def by blast
qed

lemma pow2_m24: "pow2 (- 24) = 1 / 16777216"
proof -
  have "pow2 (- 24) * pow2 24 = 1" by (simp flip: pow2_add)
  then show ?thesis by (simp add: pow2_24 field_simps)
qed

lemma pow2_m150: "pow2 (- 150) \<le> 1 / 1000000000000000000"
proof -
  have a: "pow2 (- 150) \<le> pow2 (- 60)" by simp
  have "pow2 (- 60) * pow2 60 = 1" by (simp flip: pow2_add)
  moreover have "pow2 60 = 2 ^ 60" using pow2_nat [of 60] by simp
  ultimately have "pow2 (- 60) = 1 / 2 ^ 60" by (simp add: field_simps)
  with a show ?thesis by simp
qed

lemma power_sum_bounds:
  fixes u :: real
  assumes "0 \<le> u" "real n * u < 1"
  shows "1 - real n * u \<le> (1 - u) ^ n" "(1 + u) ^ n * (1 - real n * u) \<le> 1"
proof -
  have b: "1 - real n * u \<le> (1 - u) ^ n"
  proof (cases "n = 0")
    case True
    then show ?thesis by simp
  next
    case False
    then have "1 \<le> real n" by simp
    then have "1 * u \<le> real n * u" using assms(1) by (intro mult_right_mono) simp_all
    with assms(2) have "- 1 \<le> - u" by simp
    from Bernoulli_inequality [OF this, of n] show ?thesis by simp
  qed
  show "1 - real n * u \<le> (1 - u) ^ n" by (rule b)
  show "(1 + u) ^ n * (1 - real n * u) \<le> 1"
  proof (cases "n = 0")
    case True
    then show ?thesis by simp
  next
    case False
    then have "1 \<le> real n" by simp
    then have "1 * u \<le> real n * u" using assms(1) by (intro mult_right_mono) simp_all
    with assms(2) have u1: "u \<le> 1" by simp
    have "(1 + u) ^ n * (1 - real n * u) \<le> (1 + u) ^ n * (1 - u) ^ n"
      using b assms(1) by (intro mult_left_mono) simp_all
    also have "\<dots> = ((1 + u) * (1 - u)) ^ n" by (simp add: power_mult_distrib)
    also have "\<dots> \<le> 1"
    proof (rule power_le_one)
      have "(1 + u) * (1 - u) = 1 - u * u" by (simp add: algebra_simps)
      moreover have "0 \<le> u * u" by simp
      moreover have "u * u \<le> 1" using assms(1) u1 by (simp add: mult_le_one)
      ultimately show "0 \<le> (1 + u) * (1 - u)" "(1 + u) * (1 - u) \<le> 1" by linarith+
    qed
    finally show ?thesis .
  qed
qed

lemma tolerance:
  fixes S s Q :: real
  assumes n: "n \<le> 160" and S: "1 \<le> S" and s: "1 \<le> s"
    and lo: "(1 - pow2 (- 24)) ^ n * S - real n * pow2 (- 150) \<le> s"
    and hi: "s \<le> (1 + pow2 (- 24)) ^ n * (S + real n * pow2 (- 150))"
    and Qlo: "(1 - pow2 (- 24)) * (S / s) - real n * pow2 (- 150) \<le> Q"
    and Qhi: "Q \<le> (1 + pow2 (- 24)) * (S / s) + real n * pow2 (- 150)"
  shows "\<bar>Q - 1\<bar> \<le> 1 / 100000"
proof -
  define u :: real where "u = 1 / 16777216"
  define h where "h = pow2 (- 150)"
  define h0 :: real where "h0 = 1 / 1000000000000000000"
  define c where "c = real n * u"
  define d :: real where "d = 160 * u"
  define t where "t = S / s"
  have pu: "pow2 (- 24) = u" by (simp add: pow2_m24 u_def)
  have u0: "0 \<le> u" by (simp add: u_def)
  have h: "0 \<le> h" "h \<le> h0" using pow2_m150 by (simp_all add: h_def h0_def)
  have "real n \<le> 160" using n by simp
  then have cd: "c \<le> d" unfolding c_def d_def using u0 by (intro mult_right_mono) simp_all
  have c0: "0 \<le> c" unfolding c_def using u0 by simp
  have d1: "d < 1" by (simp add: d_def u_def)
  have nh: "real n * h \<le> 160 * h0"
    using \<open>real n \<le> 160\<close> h by (intro mult_mono) simp_all
  have nh0: "0 \<le> real n * h" using h by simp
  have "real n * u < 1" using cd d1 by (simp add: c_def)
  from power_sum_bounds [OF u0 this]
  have b1: "1 - c \<le> (1 - u) ^ n" and b2: "(1 + u) ^ n * (1 - c) \<le> 1"
    by (simp_all add: c_def)
  have S0: "0 \<le> S" using S by simp
  have cS: "c * S \<le> d * S" using cd S0 by (rule mult_right_mono)
  have hS: "160 * h0 \<le> 160 * h0 * S" using S by (simp add: h0_def)
  text \<open>the computed sum from below\<close>
  have "(1 - c) * S \<le> (1 - u) ^ n * S" using b1 S0 by (rule mult_right_mono)
  moreover have "(1 - c) * S = S - c * S" by (simp add: algebra_simps)
  ultimately have "S - d * S - 160 * h0 * S \<le> s"
    using lo [unfolded pu, folded h_def] cS nh hS by linarith
  moreover have "S - d * S - 160 * h0 * S = (1 - d - 160 * h0) * S" by (simp add: algebra_simps)
  ultimately have g: "(1 - d - 160 * h0) * S \<le> s" by simp
  have g0: "0 < 1 - d - 160 * h0" by (simp add: d_def u_def h0_def)
  have s0: "0 < s" using s by simp
  have tu: "t \<le> 1 / (1 - d - 160 * h0)"
    unfolding t_def using g g0 s0 by (simp add: field_simps)
  text \<open>the computed sum from above\<close>
  have c1: "0 \<le> 1 - c" using cd d1 by simp
  have "s * (1 - c) \<le> (1 + u) ^ n * (S + real n * h) * (1 - c)"
    using hi [unfolded pu, folded h_def] c1 by (rule mult_right_mono)
  also have "\<dots> = ((1 + u) ^ n * (1 - c)) * (S + real n * h)" by (simp add: algebra_simps)
  also have "\<dots> \<le> 1 * (S + real n * h)"
    using b2 S0 nh0 by (intro mult_right_mono) simp_all
  finally have "s * (1 - c) \<le> S + real n * h" by simp
  with nh hS have "s * (1 - c) \<le> S + 160 * h0 * S" by linarith
  moreover have "s * (1 - d) \<le> s * (1 - c)" using cd s0 by (intro mult_left_mono) simp_all
  moreover have "S + 160 * h0 * S = (1 + 160 * h0) * S" by (simp add: algebra_simps)
  ultimately have k: "(1 - d) * s \<le> (1 + 160 * h0) * S" by (simp add: mult.commute)
  have k0: "0 < 1 + 160 * h0" by (simp add: h0_def)
  have tl: "(1 - d) / (1 + 160 * h0) \<le> t"
    unfolding t_def using k k0 s0 by (simp add: field_simps)
  text \<open>the sum of the output\<close>
  have t0: "0 \<le> t" unfolding t_def using S0 s0 by simp
  have "Q \<le> (1 + u) * t + 160 * h0"
    using Qhi [unfolded pu, folded h_def t_def] nh by linarith
  also have "(1 + u) * t \<le> (1 + u) * (1 / (1 - d - 160 * h0))"
    using tu u0 by (intro mult_left_mono) simp_all
  finally have "Q \<le> (1 + u) * (1 / (1 - d - 160 * h0)) + 160 * h0" by simp
  also have "\<dots> \<le> 1 + 1 / 100000" by (simp add: d_def u_def h0_def)
  finally have up: "Q \<le> 1 + 1 / 100000" .
  have u1: "0 \<le> 1 - u" by (simp add: u_def)
  have "(1 - u) * ((1 - d) / (1 + 160 * h0)) \<le> (1 - u) * t"
    using tl u1 by (rule mult_left_mono)
  moreover have "(1 - u) * t - 160 * h0 \<le> Q"
    using Qlo [unfolded pu, folded h_def t_def] nh by linarith
  moreover have "1 - 1 / 100000 \<le> (1 - u) * ((1 - d) / (1 + 160 * h0)) - 160 * h0"
    by (simp add: d_def u_def h0_def)
  ultimately have "1 - 1 / 100000 \<le> Q" by linarith
  with up show ?thesis by linarith
qed

lemma elem_le_sum_list:
  fixes rs :: "real list"
  assumes "\<forall>r\<in>set rs. 0 \<le> r" "x \<in> set rs"
  shows "x \<le> sum_list rs"
  using assms
proof (induction rs)
  case Nil
  then show ?case by simp
next
  case (Cons r rs)
  have "0 \<le> sum_list rs" using Cons.prems(1) by (intro sum_list_nonneg) simp
  with Cons show ?case by auto
qed

lemma exp_ideal_accurate: "exp_accurate exp_ideal"
  by (auto simp: exp_accurate_def)

subsection \<open>The softmax of a row\<close>



subsection \<open>Two rows on which the claim fails\<close>

lemma softmax_tie:
  assumes "exp_accurate math_Exp"
  shows "softmax math_Exp [Fin (- (1 / 2 ^ 30)), Fin 0] = Inr [Fin (1 / 2), Fin (1 / 2)]"
proof -
  let ?d = "- (1 / 2 ^ 30) :: real"
  have "representable (of_int (- 1) / 2 ^ 30)" by (rule representable_dyadic) simp_all
  then have rd: "round32 ?d = Fin ?d" using round32_exact [of ?d] by simp
  have sub: "f32_sub (Fin ?d) (Fin 0) = Fin ?d" using rd by (simp add: f32_sub_def)
  from exp_accurate_unit [OF assms, of ?d] obtain y where
    y: "math_Exp (Fin ?d) = Fin y" "y \<le> 1 + pow2 (- 24)" "\<bar>y - exp ?d\<bar> < pow2 (- 51)" by auto
  have "1 + ?d \<le> exp ?d" by (rule exp_ge_add_one_self)
  moreover have "pow2 (- 30) * pow2 30 = 1" by (simp flip: pow2_add)
  then have "pow2 (- 30) = 1 / 2 ^ 30" using pow2_nat [of 30] by (simp add: field_simps)
  moreover have "pow2 (- 30) + pow2 (- 51) < pow2 (- 25)"
  proof -
    have "pow2 (- 51) < pow2 (- 30)" "pow2 (- 30) \<le> pow2 (- 26)" by simp_all
    moreover have "pow2 (- 25) = 2 * pow2 (- 26)" using pow2_Suc [of "- 26"] by simp
    ultimately show ?thesis by linarith
  qed
  ultimately have "1 - pow2 (- 25) < y" using y(3) by linarith
  from round32_near_one [OF this y(2)]
  have e1: "exp_entry math_Exp (Fin 0) (Fin ?d) = Fin 1"
    by (simp only: exp_entry_def sub f64_of_f32_def y(1) f32_of_f64.simps)
  have e2: "exp_entry math_Exp (Fin 0) (Fin 0) = Fin 1" by (rule exp_entry_max [OF assms])
  have g: "go_index [Fin ?d, Fin 0] 0 = Inr (Fin ?d)" by (simp add: go_index_def)
  have ml: "max_loop (drop 1 [Fin ?d, Fin 0]) (Fin ?d) = Fin 0" by simp
  have two: "round32 2 = Fin 2" using round32_numeral [of "Num.Bit0 Num.One"] by simp
  have en: "map (exp_entry math_Exp (Fin 0)) [Fin ?d, Fin 0] = [Fin 1, Fin 1]"
    by (simp only: list.map e1 e2)
  have sm: "foldl f32_add (Fin 0) [Fin 1, Fin 1] = Fin 2" by (simp add: two)
  have dv: "map (\<lambda>x. f32_div x (Fin 2)) [Fin 1, Fin 1] = [Fin (1 / 2), Fin (1 / 2)]"
    by (simp add: round32_half)
  show ?thesis
    unfolding softmax_def g
    by (simp only: sum.case Let_def ml exp_loop_map en sm prod.case append_Nil dv)
qed

lemma e_bounds: "267 / 100 \<le> exp (1 :: real)" "exp (1 :: real) \<le> 276 / 100"
proof -
  have p: "exp (1 :: real) = exp (1 / 32) ^ 32"
    using exp_of_nat_mult [of 32 "1 / 32 :: real"] by simp
  have "(1 + 1 / 32 :: real) \<le> exp (1 / 32)" by (rule exp_ge_add_one_self)
  then have "(1 + 1 / 32 :: real) ^ 32 \<le> exp (1 / 32) ^ 32" by (intro power_mono) simp_all
  moreover have "(267 / 100 :: real) \<le> (1 + 1 / 32) ^ 32" by (simp add: power_divide)
  ultimately show "267 / 100 \<le> exp (1 :: real)" unfolding p by linarith
  have "exp (1 / 32 :: real) \<le> 1 + 1 / 32 + (1 / 32)\<^sup>2" by (intro exp_bound) simp_all
  then have "exp (1 / 32 :: real) ^ 32 \<le> (1 + 1 / 32 + (1 / 32)\<^sup>2) ^ 32"
    by (intro power_mono) simp_all
  moreover have "(1 + 1 / 32 + (1 / 32)\<^sup>2 :: real) ^ 32 \<le> 276 / 100"
    by (simp add: power2_eq_square power_divide)
  ultimately show "exp (1 :: real) \<le> 276 / 100" unfolding p by linarith
qed

lemma exp_m17_bounds:
  "pow2 (- 25) + pow2 (- 51) \<le> exp (- 17 :: real)" "exp (- 17 :: real) + pow2 (- 51) \<le> pow2 (- 24)"
proof -
  have p: "exp (17 :: real) = exp 1 ^ 17"
    using exp_of_nat_mult [of 17 "1 :: real"] by simp
  have lo: "(267 / 100 :: real) ^ 17 \<le> exp 17"
    unfolding p using e_bounds(1) by (intro power_mono) simp_all
  have hi: "exp (17 :: real) \<le> (276 / 100) ^ 17"
    unfolding p using e_bounds(2) by (intro power_mono) simp_all
  have m: "exp (- 17 :: real) = 1 / exp 17" by (rule exp_minus')
  have q: "pow2 (- 25) = 1 / 2 ^ 25" "pow2 (- 24) = 1 / 2 ^ 24" "pow2 (- 51) = 1 / 2 ^ 51"
  proof -
    have "pow2 (- 25) * pow2 25 = 1" "pow2 (- 24) * pow2 24 = 1" "pow2 (- 51) * pow2 51 = 1"
      by (simp_all flip: pow2_add)
    then show "pow2 (- 25) = 1 / 2 ^ 25" "pow2 (- 24) = 1 / 2 ^ 24" "pow2 (- 51) = 1 / 2 ^ 51"
      using pow2_nat [of 25] pow2_nat [of 24] pow2_nat [of 51] by (simp_all add: field_simps)
  qed
  have e0: "0 < exp (17 :: real)" by simp
  have "1 / (276 / 100) ^ 17 \<le> 1 / exp (17 :: real)"
    using hi e0 by (intro divide_left_mono) simp_all
  moreover have "(1 / 2 ^ 25 + 1 / 2 ^ 51 :: real) \<le> 1 / (276 / 100) ^ 17"
    by (simp add: power_divide)
  ultimately show "pow2 (- 25) + pow2 (- 51) \<le> exp (- 17 :: real)" unfolding m q by linarith
  have "1 / exp (17 :: real) \<le> 1 / (267 / 100) ^ 17"
    using lo by (intro divide_left_mono) simp_all
  moreover have "(1 / (267 / 100) ^ 17 + 1 / 2 ^ 51 :: real) \<le> 1 / 2 ^ 24"
    by (simp add: power_divide)
  ultimately show "exp (- 17 :: real) + pow2 (- 51) \<le> pow2 (- 24)" unfolding m q by linarith
qed

lemma representable_pow2:
  assumes "- 149 \<le> k" "k \<le> 104"
  shows "representable (pow2 k)"
  unfolding representable_def using assms by (intro exI [of _ 1] exI [of _ k]) simp

lemma exp_entry_m17:
  assumes "exp_accurate math_Exp"
  shows "\<exists>t. exp_entry math_Exp (Fin 0) (Fin (- 17)) = Fin t \<and> pow2 (- 25) \<le> t \<and> t \<le> pow2 (- 24) \<and>
             round32 t = Fin t"
proof -
  have rd: "round32 (- 17) = Fin (- 17)" using round32_int [of "- 17"] by simp
  have sub: "f32_sub (Fin (- 17)) (Fin 0) = Fin (- 17)" using rd by (simp add: f32_sub_def)
  from exp_accurate_unit [OF assms, of "- 17"] obtain y where
    y: "math_Exp (Fin (- 17)) = Fin y" "\<bar>y - exp (- 17)\<bar> < pow2 (- 51)" by auto
  from y(2) exp_m17_bounds have b: "pow2 (- 25) \<le> y" "y \<le> pow2 (- 24)" by linarith+
  have "pow2 (- 24) < pow2 127" by simp
  from round32_between [OF _ b representable_pow2 representable_pow2 this]
  obtain t where t: "round32 y = Fin t" "pow2 (- 25) \<le> t" "t \<le> pow2 (- 24)" by auto
  have "exp_entry math_Exp (Fin 0) (Fin (- 17)) = Fin t"
    by (simp only: exp_entry_def sub f64_of_f32_def y(1) f32_of_f64.simps t(1))
  with t round32_idem [OF t(1)] show ?thesis by blast
qed

lemma sum_stays_one:
  assumes "0 \<le> t" "t \<le> pow2 (- 24)"
  shows "foldl f32_add (Fin 1) (replicate k (Fin t)) = Fin 1"
proof (induction k)
  case 0
  show ?case by simp
next
  case (Suc k)
  have "1 - pow2 (- 25) < 1 + t" using assms(1) pow2_pos [of "- 25"] by linarith
  moreover have "1 + t \<le> 1 + pow2 (- 24)" using assms(2) by simp
  ultimately have "round32 (1 + t) = Fin 1" by (rule round32_near_one)
  with Suc show ?case by simp
qed

lemma max_loop_replicate:
  "x \<le> m \<Longrightarrow> max_loop (replicate k (Fin x)) (Fin m) = Fin m"
  by (induction k) simp_all

lemma softmax_dropped:
  assumes "exp_accurate math_Exp"
  shows "\<not> softmax_sums_to_one math_Exp (Fin 0 # replicate 336 (Fin (- 17)))"
proof -
  from exp_entry_m17 [OF assms] obtain t where
    t: "exp_entry math_Exp (Fin 0) (Fin (- 17)) = Fin t" "pow2 (- 25) \<le> t" "t \<le> pow2 (- 24)"
      "round32 t = Fin t" by blast
  have t0: "0 \<le> t" using t(2) pow2_nonneg [of "- 25"] by linarith
  have e0: "exp_entry math_Exp (Fin 0) (Fin 0) = Fin 1" by (rule exp_entry_max [OF assms])
  have g: "go_index (Fin 0 # replicate 336 (Fin (- 17))) 0 = Inr (Fin 0)"
    by (simp add: go_index_def)
  have ml: "max_loop (drop 1 (Fin 0 # replicate 336 (Fin (- 17)))) (Fin 0) = Fin 0"
    using max_loop_replicate [of "- 17" 0 336] by simp
  have en: "map (exp_entry math_Exp (Fin 0)) (Fin 0 # replicate 336 (Fin (- 17))) =
      Fin 1 # replicate 336 (Fin t)"
    by (simp add: e0 t(1))
  have sm: "foldl f32_add (Fin 0) (Fin 1 # replicate 336 (Fin t)) = Fin 1"
    using sum_stays_one [OF t0 t(3), of 336] by simp
  have dv: "map (\<lambda>x. f32_div x (Fin 1)) (Fin 1 # replicate 336 (Fin t)) =
      Fin 1 # replicate 336 (Fin t)"
    by (simp add: t(4))
  have out: "softmax math_Exp (Fin 0 # replicate 336 (Fin (- 17))) =
      Inr (Fin 1 # replicate 336 (Fin t))"
    unfolding softmax_def g
    by (simp only: sum.case Let_def ml exp_loop_map en sm prod.case append_Nil dv)
  have "row_sum (Fin 1 # replicate 336 (Fin t)) = 1 + 336 * t"
    by (simp add: row_sum_def sum_list_replicate)
  moreover have "pow2 (- 25) * pow2 25 = 1" by (simp flip: pow2_add)
  then have "pow2 (- 25) = 1 / 2 ^ 25" using pow2_nat [of 25] by (simp add: field_simps)
  with t(2) have "1 / 100000 < 336 * t" by simp
  ultimately have "\<not> \<bar>row_sum (Fin 1 # replicate 336 (Fin t)) - 1\<bar> \<le> 1 / 100000" by simp
  then show ?thesis by (simp only: softmax_sums_to_one_def out sum.case simp_thms)
qed


end
